theory Spec2Isabelle
  imports Complex_Main "HOL-Library.Stream"
begin

section \<open>Game trees (game\_tree.py)\<close>

text \<open>
  A \<open>GameTree\<close> object has the attributes \<open>move\<close>, \<open>is_white_move\<close>,
  \<open>white_win_probability\<close> and the private list \<open>_subtrees\<close>. The tree is a value
  here: a node owns its subtrees and no node object is a subtree of two parents, so an
  in-place change of a subtree is the replacement of that subtree in its parent's list.
  A win probability is a finite double, which is a real number; comparisons of doubles
  are exact, and every addition and division of doubles is rounded (section on double
  arithmetic below).
\<close>

datatype GameTree =
  GameTree (move: string) (is_white_move: bool) (white_win_probability: real)
    (subtrees: "GameTree list")

text \<open>The constant \<open>GAME_START_MOVE = '*'\<close> and the initializer's default arguments.\<close>

definition GAME_START_MOVE :: string where
  "GAME_START_MOVE = ''*''"

definition new_GameTree :: "string \<Rightarrow> bool \<Rightarrow> real \<Rightarrow> GameTree" where
  "new_GameTree mv w p = GameTree mv w p []"

definition default_GameTree :: GameTree where
  "default_GameTree = new_GameTree GAME_START_MOVE True 0"

definition get_subtrees :: "GameTree \<Rightarrow> GameTree list" where
  "get_subtrees self = subtrees self"

text \<open>\<open>find_subtree_by_move\<close>: the first subtree with the given move, or \<open>None\<close>.\<close>

definition find_subtree_by_move :: "GameTree \<Rightarrow> string \<Rightarrow> GameTree option" where
  "find_subtree_by_move self mv = find (\<lambda>subtree. move subtree = mv) (subtrees self)"

text \<open>
  Python's \<open>max\<close> over a non-empty iterable keeps the first item and replaces it by a
  later one only when that one is strictly greater.
\<close>

definition py_max :: "real \<Rightarrow> real list \<Rightarrow> real" where
  "py_max x xs = foldl (\<lambda>m v. if v > m then v else m) x xs"

subsection \<open>Double arithmetic\<close>

text \<open>
  Python's \<open>float\<close> is the IEEE 754 double: 53 bits of precision, rounding to the
  nearest double and to the even one of two nearest, gradual underflow below
  \<open>2^-1022\<close>. \<open>rne\<close> rounds a real number to the nearest integer, a tie to the even
  one. \<open>binade x\<close> is the exponent \<open>e\<close> with \<open>2^e \<le> |x| < 2^(e+1)\<close>, and the doubles
  of that range are the multiples of \<open>2^(e-52)\<close>, or of \<open>2^-1074\<close> in the subnormal
  range. \<open>round_double\<close> is the rounding of a real number to a double. Infinities and
  NaN are not values here: a result beyond the largest double has no counterpart, and it
  needs operands far outside the interval \<open>[0, 1]\<close> of the representation invariant.
\<close>

definition rne :: "real \<Rightarrow> int" where
  "rne y =
     (let f = \<lfloor>y\<rfloor>; r = y - of_int f
      in if r < 1/2 then f else if 1/2 < r then f + 1 else if even f then f else f + 1)"

definition binade :: "real \<Rightarrow> int" where
  "binade x = \<lfloor>log 2 \<bar>x\<bar>\<rfloor>"

definition quantum_exponent :: "real \<Rightarrow> int" where
  "quantum_exponent x = max (binade x) (- 1022) - 52"

definition round_double :: "real \<Rightarrow> real" where
  "round_double x =
     (if x = 0 then 0
      else of_int (rne (x / 2 powi quantum_exponent x)) * 2 powi quantum_exponent x)"

text \<open>The doubles are the real numbers that the rounding leaves as they are.\<close>

definition is_double :: "real \<Rightarrow> bool" where
  "is_double x \<longleftrightarrow> round_double x = x"

text \<open>
  Addition and true division of two floats, and the conversion of an \<open>int\<close> operand to
  \<open>float\<close>, each correctly rounded. The divisor of the one division in the source is
  the count of a non-empty list, so \<open>ZeroDivisionError\<close> is not raised there.
\<close>

definition float_add :: "real \<Rightarrow> real \<Rightarrow> real" where
  "float_add x y = round_double (x + y)"

definition float_of_nat :: "nat \<Rightarrow> real" where
  "float_of_nat n = round_double (real n)"

definition float_div :: "real \<Rightarrow> real \<Rightarrow> real" where
  "float_div x y = round_double (x / y)"

text \<open>
  The sum and the mean of a list of doubles as double arithmetic computes them: the
  values are added from the left, starting from 0, and the sum is divided by the number
  of values.
\<close>

definition float_sum :: "real list \<Rightarrow> real" where
  "float_sum xs = foldl float_add 0 xs"

definition float_mean :: "real list \<Rightarrow> real" where
  "float_mean xs = float_div (float_sum xs) (float_of_nat (length xs))"

subsection \<open>Recomputing the win probability\<close>

text \<open>
  The loop of the Black branch: \<open>sum_probs\<close> starts at the \<open>int\<close> 0 and takes the
  float sum with each subtree's value, \<open>count\<close> is an \<open>int\<close>; the result is
  \<open>sum_probs / count\<close>, a float divided by an \<open>int\<close>.
\<close>

definition sum_count :: "GameTree list \<Rightarrow> real \<times> nat" where
  "sum_count ts =
     foldl (\<lambda>(sum_probs, count) subtree.
              (float_add sum_probs (white_win_probability subtree), count + 1)) (0, 0) ts"

definition update_white_win_probability :: "GameTree \<Rightarrow> GameTree" where
  "update_white_win_probability self =
     (case subtrees self of
        [] \<Rightarrow> self
      | t # ts \<Rightarrow>
          if is_white_move self then
            GameTree (move self) (is_white_move self)
              (py_max (white_win_probability t) (map white_win_probability ts))
              (subtrees self)
          else
            (let (sum_probs, count) = sum_count (subtrees self)
             in GameTree (move self) (is_white_move self)
                  (float_div sum_probs (float_of_nat count))
                  (subtrees self)))"

definition add_subtree :: "GameTree \<Rightarrow> GameTree \<Rightarrow> GameTree" where
  "add_subtree self subtree =
     update_white_win_probability
       (GameTree (move self) (is_white_move self) (white_win_probability self)
          (subtrees self @ [subtree]))"

text \<open>
  \<open>rec_helper\<close> changes the subtree that \<open>find_subtree_by_move\<close> returned, in place:
  that is the first subtree with the move.
\<close>

fun update_first :: "('a \<Rightarrow> bool) \<Rightarrow> ('a \<Rightarrow> 'a) \<Rightarrow> 'a list \<Rightarrow> 'a list" where
  "update_first P f [] = []"
| "update_first P f (x # xs) = (if P x then f x # xs else x # update_first P f xs)"

text \<open>
  \<open>rec_helper\<close> reads the next move at the end of the reversed copy
  (\<open>moves_copy[-1]\<close>) and pops it before the recursive call.
\<close>

function rec_helper :: "GameTree \<Rightarrow> string list \<Rightarrow> real \<Rightarrow> GameTree" where
  "rec_helper self moves_copy win_probability =
     (if moves_copy = [] then self
      else
        (case find_subtree_by_move self (last moves_copy) of
           None \<Rightarrow>
             (let new_subtree =
                    GameTree (last moves_copy) (\<not> is_white_move self) win_probability []
              in update_white_win_probability
                   (GameTree (move self) (is_white_move self) (white_win_probability self)
                      (subtrees self @
                         [rec_helper new_subtree (butlast moves_copy) win_probability])))
         | Some _ \<Rightarrow>
             update_white_win_probability
               (GameTree (move self) (is_white_move self) (white_win_probability self)
                  (update_first (\<lambda>subtree. move subtree = last moves_copy)
                     (\<lambda>move_tree. rec_helper move_tree (butlast moves_copy) win_probability)
                     (subtrees self)))))"
  by pat_completeness auto
termination
  by (relation "measure (\<lambda>(self, moves_copy, win_probability). length moves_copy)") auto

declare rec_helper.simps [simp del]

definition insert_move_sequence :: "GameTree \<Rightarrow> string list \<Rightarrow> real \<Rightarrow> GameTree" where
  "insert_move_sequence self moves win_probability =
     rec_helper self (rev moves) win_probability"

text \<open>
  Stepwise lookup along a list of move labels with \<open>find_subtree_by_move\<close>, starting at
  a node; \<open>None\<close> as soon as one step finds no subtree.
\<close>

fun lookup_path :: "GameTree \<Rightarrow> string list \<Rightarrow> GameTree option" where
  "lookup_path t [] = Some t"
| "lookup_path t (m # ms) =
     (case find_subtree_by_move t m of None \<Rightarrow> None | Some c \<Rightarrow> lookup_path c ms)"

text \<open>
  A sequence of \<open>insert_move_sequence\<close> calls on one tree, as \<open>load_game_tree\<close> and
  \<open>run_learning_algorithm\<close> make them: each call has its moves and its probability.
\<close>

definition insert_move_sequences :: "GameTree \<Rightarrow> (string list \<times> real) list \<Rightarrow> GameTree" where
  "insert_move_sequences tree calls =
     foldl (\<lambda>t (moves, win_probability). insert_move_sequence t moves win_probability)
       tree calls"

text \<open>The shape of a tree: the tree with every cached probability set to 0.\<close>

fun shape :: "GameTree \<Rightarrow> GameTree" where
  "shape (GameTree m w p ts) = GameTree m w 0 (map shape ts)"

text \<open>The numbers of children of the nodes met by the stepwise lookup along a path.\<close>

fun child_counts :: "GameTree \<Rightarrow> string list \<Rightarrow> nat list" where
  "child_counts t [] = [length (subtrees t)]"
| "child_counts t (m # ms) =
     length (subtrees t) #
       (case find_subtree_by_move t m of None \<Rightarrow> [] | Some c \<Rightarrow> child_counts c ms)"

text \<open>At every node of the tree, the subtrees are pairwise distinct by move label.\<close>

fun no_duplicate_siblings :: "GameTree \<Rightarrow> bool" where
  "no_duplicate_siblings (GameTree m w p ts) =
     (distinct (map move ts) \<and> (\<forall>t \<in> set ts. no_duplicate_siblings t))"

text \<open>
  The same for the nodes that the stepwise lookup along a path meets: each of them has
  subtrees that are pairwise distinct by move label.
\<close>

fun siblings_distinct_along :: "GameTree \<Rightarrow> string list \<Rightarrow> bool" where
  "siblings_distinct_along t [] = distinct (map move (subtrees t))"
| "siblings_distinct_along t (m # ms) =
     (distinct (map move (subtrees t)) \<and>
      (case find_subtree_by_move t m of
         None \<Rightarrow> True
       | Some c \<Rightarrow> siblings_distinct_along c ms))"

text \<open>All nodes of a tree, the root first.\<close>

fun nodes :: "GameTree \<Rightarrow> GameTree list" where
  "nodes (GameTree m w p ts) = GameTree m w p ts # concat (map nodes ts)"

text \<open>The representation invariant \<open>0 <= white_win_probability <= 1\<close> of one value.\<close>

definition in_unit :: "real \<Rightarrow> bool" where
  "in_unit p \<longleftrightarrow> 0 \<le> p \<and> p \<le> 1"

text \<open>The node at a position, given as the list of child indices from the root.\<close>

fun node_at :: "GameTree \<Rightarrow> nat list \<Rightarrow> GameTree option" where
  "node_at t [] = Some t"
| "node_at t (i # is) =
     (if i < length (subtrees t) then node_at (subtrees t ! i) is else None)"

text \<open>
  A node's cached value agrees with the recomputation rule on its present subtrees.
\<close>

definition recomputed :: "GameTree \<Rightarrow> bool" where
  "recomputed n \<longleftrightarrow>
     white_win_probability n =
       (if is_white_move n then Max (set (map white_win_probability (subtrees n)))
        else float_mean (map white_win_probability (subtrees n)))"

text \<open>
  A caller that holds a reference to an inner node (from \<open>get_subtrees\<close> or
  \<open>find_subtree_by_move\<close>) can call an operation on it; the node changes in place and
  no ancestor is recomputed. \<open>modify_at\<close> applies an operation to the node at a
  position and leaves the tree as it is when there is no node there.
\<close>

fun modify_at :: "nat list \<Rightarrow> (GameTree \<Rightarrow> GameTree) \<Rightarrow> GameTree \<Rightarrow> GameTree" where
  "modify_at [] f t = f t"
| "modify_at (i # is) f t =
     (if i < length (subtrees t) then
        GameTree (move t) (is_white_move t) (white_win_probability t)
          ((subtrees t)[i := modify_at is f (subtrees t ! i)])
      else t)"

text \<open>
  The trees that the public operations build when every probability supplied is in
  \<open>[0, 1]\<close>: the initializer, \<open>add_subtree\<close> and \<open>insert_move_sequence\<close>, each
  called on the root or on any node inside the tree.
\<close>

inductive built :: "GameTree \<Rightarrow> bool" where
  built_init: "0 \<le> p \<Longrightarrow> p \<le> 1 \<Longrightarrow> built (new_GameTree mv w p)"
| built_add: "built t \<Longrightarrow> built s \<Longrightarrow> built (modify_at pos (\<lambda>n. add_subtree n s) t)"
| built_insert:
    "built t \<Longrightarrow> 0 \<le> q \<Longrightarrow> q \<le> 1 \<Longrightarrow>
     built (modify_at pos (\<lambda>n. insert_move_sequence n moves q) t)"

section \<open>The game engine (module minichess)\<close>

text \<open>
  The module \<open>minichess\<close> is not among the sources. The functions below take the
  four methods of \<open>MinichessGame\<close> that they call as a parameter: a record of functions
  over an arbitrary type \<open>'g\<close> of game states. \<open>get_winner\<close> returns \<open>None\<close> or the
  name of the result; \<open>copy_and_make_move\<close> returns a new state.
\<close>

record 'g MinichessGame =
  get_valid_moves :: "'g \<Rightarrow> string list"
  game_is_white_move :: "'g \<Rightarrow> bool"
  get_winner :: "'g \<Rightarrow> string option"
  copy_and_make_move :: "'g \<Rightarrow> string \<Rightarrow> 'g"

section \<open>Complete game trees (part2.py)\<close>

text \<open>
  \<open>generate_complete_game_tree\<close> for \<open>d \<ge> 0\<close> (its precondition). The loop over
  \<open>valid_moves\<close> adds one subtree per move with \<open>add_subtree\<close>.
\<close>

fun generate_complete_game_tree ::
  "'g MinichessGame \<Rightarrow> string \<Rightarrow> 'g \<Rightarrow> nat \<Rightarrow> GameTree" where
  "generate_complete_game_tree e root_move game_state 0 =
     (if get_winner e game_state = Some ''White'' then
        new_GameTree root_move (game_is_white_move e game_state) 1
      else new_GameTree root_move (game_is_white_move e game_state) 0)"
| "generate_complete_game_tree e root_move game_state (Suc d) =
     (if get_winner e game_state = Some ''White'' then
        foldl (\<lambda>tree mv.
                 add_subtree tree
                   (generate_complete_game_tree e mv (copy_and_make_move e game_state mv) d))
          (new_GameTree root_move (game_is_white_move e game_state) 1)
          (get_valid_moves e game_state)
      else
        foldl (\<lambda>tree x.
                 add_subtree tree
                   (generate_complete_game_tree e x (copy_and_make_move e game_state x) d))
          (new_GameTree root_move (game_is_white_move e game_state) 0)
          (get_valid_moves e game_state))"

text \<open>
  The game state that a position of the complete tree stands for: the state after the
  valid moves with the position's indices, one after the other.
\<close>

fun state_at :: "'g MinichessGame \<Rightarrow> 'g \<Rightarrow> nat list \<Rightarrow> 'g option" where
  "state_at e g [] = Some g"
| "state_at e g (i # is) =
     (if i < length (get_valid_moves e g) then
        state_at e (copy_and_make_move e g (get_valid_moves e g ! i)) is
      else None)"

text \<open>
  A small engine to run the definitions on: the state is the number of moves left before
  the game ends; while moves are left there are two valid moves, White is to move at the
  even states, and White has won when no move is left.
\<close>

definition countdown_game :: "nat MinichessGame" where
  "countdown_game =
     \<lparr> get_valid_moves = (\<lambda>g. if g = 0 then [] else [''a2b3'', ''b2c3'']),
       game_is_white_move = (\<lambda>g. even g),
       get_winner = (\<lambda>g. if g = 0 then Some ''White'' else None),
       copy_and_make_move = (\<lambda>g mv. g - 1) \<rparr>"

section \<open>The random module\<close>

text \<open>
  The players call \<open>random.choice\<close> and \<open>random.uniform\<close> on the module's global
  generator. The generator is the stream of its raw outputs; every call consumes the
  next one. \<open>random.random()\<close> is a 53-bit integer divided by \<open>2^53\<close>,
  \<open>random.uniform(a, b)\<close> is \<open>a + (b - a) * random()\<close>, and
  \<open>random.choice(seq)\<close> raises \<open>IndexError\<close> on an empty sequence and returns
  \<open>seq[i]\<close> for an index \<open>i\<close> below \<open>len(seq)\<close> otherwise.
\<close>

datatype py_error = IndexError | AttributeError

type_synonym rng = "nat stream"

definition random_random :: "rng \<Rightarrow> real \<times> rng" where
  "random_random r = (real (shd r mod 2 ^ 53) / 2 ^ 53, stl r)"

definition random_uniform :: "real \<Rightarrow> real \<Rightarrow> rng \<Rightarrow> real \<times> rng" where
  "random_uniform a b r = (let (x, r') = random_random r in (a + (b - a) * x, r'))"

definition random_choice :: "'a list \<Rightarrow> rng \<Rightarrow> (py_error + 'a) \<times> rng" where
  "random_choice seq r =
     (if seq = [] then (Inl IndexError, r)
      else (Inr (seq ! (shd r mod length seq)), stl r))"

section \<open>The players (part1.py, part2.py, part3.py)\<close>

text \<open>
  A player object holds \<open>_game_tree\<close>, a game tree or \<open>None\<close>. \<open>make_move\<close> takes
  the game, the opponent's previous move (or \<open>None\<close>), the held tree and the generator,
  and returns the move (or the exception raised), the held tree and the generator
  afterwards.
\<close>

type_synonym move_result = "(py_error + string) \<times> GameTree option \<times> rng"

text \<open>The first statement of each \<open>make_move\<close>: descend by the opponent's move.\<close>

definition descend :: "GameTree option \<Rightarrow> string option \<Rightarrow> GameTree option" where
  "descend held previous_move =
     (case previous_move of
        None \<Rightarrow> held
      | Some pm \<Rightarrow> (case held of None \<Rightarrow> None | Some t \<Rightarrow> find_subtree_by_move t pm))"

text \<open>
  The branch taken when the held tree is \<open>None\<close> or has no subtrees. The exception of
  \<open>random.choice\<close> is raised before \<open>_game_tree\<close> is assigned.
\<close>

definition random_valid_move ::
  "'g MinichessGame \<Rightarrow> 'g \<Rightarrow> GameTree option \<Rightarrow> rng \<Rightarrow> move_result" where
  "random_valid_move e game held r =
     (case random_choice (get_valid_moves e game) r of
        (Inl err, r') \<Rightarrow> (Inl err, held, r')
      | (Inr next_move, r') \<Rightarrow> (Inr next_move, None, r'))"

text \<open>\<open>random.choice\<close> among the subtrees of the held tree.\<close>

definition random_subtree :: "GameTree \<Rightarrow> rng \<Rightarrow> move_result" where
  "random_subtree t r =
     (case random_choice (get_subtrees t) r of
        (Inl err, r') \<Rightarrow> (Inl err, Some t, r')
      | (Inr next_subtree, r') \<Rightarrow> (Inr (move next_subtree), Some next_subtree, r'))"

definition RandomTreePlayer_make_move ::
  "'g MinichessGame \<Rightarrow> 'g \<Rightarrow> string option \<Rightarrow> GameTree option \<Rightarrow> rng \<Rightarrow> move_result" where
  "RandomTreePlayer_make_move e game previous_move held r =
     (case descend held previous_move of
        None \<Rightarrow> random_valid_move e game None r
      | Some t \<Rightarrow>
          if get_subtrees t = [] then random_valid_move e game (Some t) r
          else random_subtree t r)"

text \<open>
  The two scans of the greedy player: \<open>prob\<close> starts at \<open>0.0\<close> and
  \<open>highest_prob\<close> at \<open>None\<close>; \<open>prob1\<close> starts at \<open>1.0\<close> and \<open>lowest_prob\<close> at
  \<open>None\<close>.
\<close>

definition scan_highest :: "GameTree list \<Rightarrow> real \<times> GameTree option" where
  "scan_highest ts =
     foldl (\<lambda>(prob, highest_prob) subtree.
              if white_win_probability subtree > prob
              then (white_win_probability subtree, Some subtree)
              else (prob, highest_prob)) (0, None) ts"

definition scan_lowest :: "GameTree list \<Rightarrow> real \<times> GameTree option" where
  "scan_lowest ts =
     foldl (\<lambda>(prob1, lowest_prob) subtree.
              if white_win_probability subtree < prob1
              then (white_win_probability subtree, Some subtree)
              else (prob1, lowest_prob)) (1, None) ts"

definition GreedyTreePlayer_make_move ::
  "'g MinichessGame \<Rightarrow> 'g \<Rightarrow> string option \<Rightarrow> GameTree option \<Rightarrow> rng \<Rightarrow> move_result" where
  "GreedyTreePlayer_make_move e game previous_move held r =
     (case descend held previous_move of
        None \<Rightarrow> random_valid_move e game None r
      | Some t \<Rightarrow>
          if get_subtrees t = [] then random_valid_move e game (Some t) r
          else if game_is_white_move e game then
            (case snd (scan_highest (get_subtrees t)) of
               Some highest_prob \<Rightarrow> (Inr (move highest_prob), Some highest_prob, r)
             | None \<Rightarrow> random_subtree t r)
          else
            (case snd (scan_lowest (get_subtrees t)) of
               Some lowest_prob \<Rightarrow> (Inr (move lowest_prob), Some lowest_prob, r)
             | None \<Rightarrow> random_subtree t r))"

text \<open>\<open>ExploringPlayer.helper_function\<close>: the explore step.\<close>

definition helper_function :: "'g MinichessGame \<Rightarrow> 'g \<Rightarrow> GameTree \<Rightarrow> rng \<Rightarrow> move_result" where
  "helper_function e game t r =
     (case random_choice (get_valid_moves e game) r of
        (Inl err, r') \<Rightarrow> (Inl err, Some t, r')
      | (Inr next_move, r') \<Rightarrow>
          if next_move \<notin> set (map move (get_subtrees t)) then (Inr next_move, None, r')
          else
            (case find_subtree_by_move t next_move of
               None \<Rightarrow> (Inl AttributeError, None, r')
             | Some next_subtree \<Rightarrow> (Inr (move next_subtree), Some next_subtree, r')))"

text \<open>\<open>ExploringPlayer.helper_function2\<close>: the greedy step.\<close>

definition helper_function2 :: "'g MinichessGame \<Rightarrow> 'g \<Rightarrow> GameTree \<Rightarrow> rng \<Rightarrow> move_result" where
  "helper_function2 e game t r =
     (if game_is_white_move e game then
        (case snd (scan_highest (get_subtrees t)) of
           Some highest_prob \<Rightarrow> (Inr (move highest_prob), Some highest_prob, r)
         | None \<Rightarrow> random_subtree t r)
      else
        (case snd (scan_lowest (get_subtrees t)) of
           Some lowest_prob \<Rightarrow> (Inr (move lowest_prob), Some lowest_prob, r)
         | None \<Rightarrow> random_subtree t r))"

definition ExploringPlayer_make_move ::
  "real \<Rightarrow> 'g MinichessGame \<Rightarrow> 'g \<Rightarrow> string option \<Rightarrow> GameTree option \<Rightarrow> rng \<Rightarrow> move_result"
  where
  "ExploringPlayer_make_move exploration_probability e game previous_move held r =
     (case descend held previous_move of
        None \<Rightarrow> random_valid_move e game None r
      | Some t \<Rightarrow>
          if get_subtrees t = [] then random_valid_move e game (Some t) r
          else
            (let (number, r') = random_uniform 0 1 r
             in if number < exploration_probability then helper_function e game t r'
                else helper_function2 e game t r'))"

text \<open>What a call of \<open>make_move\<close> returns and the held tree it leaves.\<close>

definition outcome :: "move_result \<Rightarrow> (py_error + string) \<times> GameTree option" where
  "outcome res = (fst res, fst (snd res))"

text \<open>The three player classes, and \<open>make_move\<close> dispatched on the class.\<close>

datatype player = RandomTreePlayer | GreedyTreePlayer | ExploringPlayer real

fun make_move ::
  "player \<Rightarrow> 'g MinichessGame \<Rightarrow> 'g \<Rightarrow> string option \<Rightarrow> GameTree option \<Rightarrow> rng \<Rightarrow> move_result"
  where
  "make_move RandomTreePlayer = RandomTreePlayer_make_move"
| "make_move GreedyTreePlayer = GreedyTreePlayer_make_move"
| "make_move (ExploringPlayer p) = ExploringPlayer_make_move p"

text \<open>
  The later calls of \<open>make_move\<close> on one player object in a game: each call gets the
  game and the opponent's move of its turn, and the held tree and the generator that the
  call before left. An exception ends the game.
\<close>

fun make_moves ::
  "player \<Rightarrow> 'g MinichessGame \<Rightarrow> ('g \<times> string option) list \<Rightarrow> GameTree option \<Rightarrow> rng \<Rightarrow>
   GameTree option \<times> rng" where
  "make_moves pl e [] held r = (held, r)"
| "make_moves pl e ((game, previous_move) # calls) held r =
     (case make_move pl e game previous_move held r of
        (Inl err, held', r') \<Rightarrow> (held', r')
      | (Inr mv, held', r') \<Rightarrow> make_moves pl e calls held' r')"

section \<open>Facts about double arithmetic\<close>

lemma rne_of_int [simp]: "rne (of_int n) = n"
  by (simp add: rne_def)

lemma rne_floor: "\<lfloor>y\<rfloor> \<le> rne y" "rne y \<le> \<lfloor>y\<rfloor> + 1"
  by (simp_all add: rne_def Let_def)

lemma rne_mono: "a \<le> b \<Longrightarrow> rne a \<le> rne b"
proof -
  assume ab: "a \<le> b"
  then have fl: "\<lfloor>a\<rfloor> \<le> \<lfloor>b\<rfloor>" by (rule floor_mono)
  show ?thesis
  proof (cases "\<lfloor>a\<rfloor> = \<lfloor>b\<rfloor>")
    case True
    with ab have "a - of_int \<lfloor>a\<rfloor> \<le> b - of_int \<lfloor>b\<rfloor>" by simp
    with True show ?thesis
      by (auto simp: rne_def Let_def)
  next
    case False
    with fl have "\<lfloor>a\<rfloor> + 1 \<le> \<lfloor>b\<rfloor>" by simp
    with rne_floor(2) [of a] rne_floor(1) [of b] show ?thesis by linarith
  qed
qed

lemma rne_0 [simp]: "rne 0 = 0"
  using rne_of_int [of 0] by simp

lemma rne_numeral [simp]: "rne (numeral n) = numeral n"
  using rne_of_int [of "numeral n"] by simp

lemma rne_nonneg: "0 \<le> a \<Longrightarrow> 0 \<le> rne a"
  using rne_mono [of 0 a] by simp

lemma two_powr_of_int: "(2::real) powr real_of_int k = 2 powi k"
  by (simp add: powr_real_of_int')

lemma floor_log2_iff:
  "0 < x \<Longrightarrow> \<lfloor>log 2 x\<rfloor> = k \<longleftrightarrow> 2 powi k \<le> x \<and> x < 2 powi (k + 1)"
  using floor_log_eq_powr_iff [of x 2 k] by (simp only: two_powr_of_int)

lemma binade_bounds:
  assumes "x \<noteq> 0"
  shows "2 powi binade x \<le> \<bar>x\<bar>" and "\<bar>x\<bar> < 2 powi (binade x + 1)"
proof -
  from assms have pos: "0 < \<bar>x\<bar>" by simp
  have "\<lfloor>log 2 \<bar>x\<bar>\<rfloor> = binade x" by (simp add: binade_def)
  then have "2 powi binade x \<le> \<bar>x\<bar> \<and> \<bar>x\<bar> < 2 powi (binade x + 1)"
    by (simp only: floor_log2_iff [OF pos])
  then show "2 powi binade x \<le> \<bar>x\<bar>" and "\<bar>x\<bar> < 2 powi (binade x + 1)"
    by simp_all
qed

lemma binade_eq:
  assumes "2 powi e \<le> \<bar>x\<bar>" and "\<bar>x\<bar> < 2 powi (e + 1)"
  shows "binade x = e"
proof -
  have "(0::real) < 2 powi e" by simp
  with assms(1) have pos: "0 < \<bar>x\<bar>" by linarith
  from assms show ?thesis
    unfolding binade_def by (simp only: floor_log2_iff [OF pos])
qed

lemma binade_mono:
  assumes "0 < x" and "x \<le> y"
  shows "binade x \<le> binade y"
proof -
  from assms have "log 2 x \<le> log 2 y" by simp
  then have "\<lfloor>log 2 x\<rfloor> \<le> \<lfloor>log 2 y\<rfloor>" by (rule floor_mono)
  with assms show ?thesis by (simp add: binade_def)
qed

lemma round_double_eval:
  assumes "2 powi e \<le> \<bar>x\<bar>" and "\<bar>x\<bar> < 2 powi (e + 1)"
  shows "round_double x =
    of_int (rne (x / 2 powi (max e (- 1022) - 52))) * 2 powi (max e (- 1022) - 52)"
proof -
  have "(0::real) < 2 powi e" by simp
  with assms(1) have "0 < \<bar>x\<bar>" by linarith
  then have "x \<noteq> 0" by simp
  with binade_eq [OF assms] show ?thesis
    by (simp add: round_double_def quantum_exponent_def)
qed

lemma round_double_0 [simp]: "round_double 0 = 0"
  by (simp add: round_double_def)

lemma round_double_1 [simp]: "round_double 1 = 1"
  using round_double_eval [of 0 1] by simp

lemma round_double_half: "round_double (1/2) = 1/2"
  using round_double_eval [of "-1" "1/2"] by simp

lemma round_double_third: "round_double (1/3) = 6004799503160661 / 18014398509481984"
  using round_double_eval [of "-2" "1/3"] by (simp add: rne_def)


lemma round_double_nonneg: "0 \<le> x \<Longrightarrow> 0 \<le> round_double x"
  by (simp add: round_double_def rne_nonneg)

lemma two_powi_le: "a \<le> b \<Longrightarrow> (2::real) powi a \<le> 2 powi b"
  by (rule power_int_increasing) simp_all

lemma two_powi_less_cancel: "(2::real) powi a < 2 powi b \<Longrightarrow> a < b"
  using two_powi_le [of b a] by (cases "a < b") auto

lemma two_powi_add_nat: "(2::real) powi (u + int n) = 2 powi u * 2 ^ n"
  by (simp add: power_int_add)

lemma scaled_less:
  assumes "(z::real) < 2 powi (u + 53)"
  shows "z / 2 powi u < 2 ^ 53"
proof -
  have "(2::real) powi (u + 53) = 2 powi u * 2 ^ 53"
    using two_powi_add_nat [of u 53] by simp
  with assms have "z < 2 ^ 53 * 2 powi u" by (simp add: mult.commute)
  then show ?thesis by (simp add: pos_divide_less_eq)
qed

lemma scaled_ge:
  assumes "2 powi (u + 52) \<le> (z::real)"
  shows "2 ^ 52 \<le> z / 2 powi u"
proof -
  have "(2::real) powi (u + 52) = 2 powi u * 2 ^ 52"
    using two_powi_add_nat [of u 52] by simp
  with assms have "2 ^ 52 * 2 powi u \<le> z" by (simp add: mult.commute)
  then show ?thesis by (simp add: pos_le_divide_eq)
qed

text \<open>The rounded value stays within the binade's closed range.\<close>

lemma round_double_upper:
  assumes "0 < z"
  shows "round_double z \<le> 2 powi (quantum_exponent z + 53)"
proof -
  let ?u = "quantum_exponent z"
  from assms have nz: "z \<noteq> 0" by simp
  from binade_bounds(2) [OF nz] assms have "z < 2 powi (binade z + 1)" by simp
  also have "\<dots> \<le> 2 powi (?u + 53)"
    by (rule two_powi_le) (simp add: quantum_exponent_def)
  finally have "z / 2 powi ?u < 2 ^ 53" by (rule scaled_less)
  then have "rne (z / 2 powi ?u) \<le> rne (2 ^ 53)"
    by (intro rne_mono) simp
  then have "rne (z / 2 powi ?u) \<le> 2 ^ 53"
    using rne_of_int [of "2 ^ 53"] by simp
  then have "real_of_int (rne (z / 2 powi ?u)) \<le> 2 ^ 53"
    using of_int_le_iff [of "rne (z / 2 powi ?u)" "2 ^ 53", where ?'a = real] by simp
  then have "real_of_int (rne (z / 2 powi ?u)) * 2 powi ?u \<le> 2 ^ 53 * 2 powi ?u"
    by (intro mult_right_mono) simp_all
  also have "\<dots> = 2 powi (?u + 53)"
    using two_powi_add_nat [of ?u 53] by simp
  finally show ?thesis using nz by (simp add: round_double_def)
qed

lemma round_double_lower:
  assumes "0 < z" and "- 1022 \<le> binade z"
  shows "2 powi binade z \<le> round_double z"
proof -
  let ?u = "quantum_exponent z"
  from assms(2) have u: "?u + 52 = binade z" by (simp add: quantum_exponent_def)
  from assms have nz: "z \<noteq> 0" by simp
  from binade_bounds(1) [OF nz] assms u have "2 powi (?u + 52) \<le> z" by simp
  then have "2 ^ 52 \<le> z / 2 powi ?u" by (rule scaled_ge)
  then have "rne (2 ^ 52) \<le> rne (z / 2 powi ?u)"
    by (rule rne_mono)
  then have "2 ^ 52 \<le> rne (z / 2 powi ?u)"
    using rne_of_int [of "2 ^ 52"] by simp
  then have "2 ^ 52 \<le> real_of_int (rne (z / 2 powi ?u))"
    using of_int_le_iff [of "2 ^ 52" "rne (z / 2 powi ?u)", where ?'a = real] by simp
  then have *: "2 ^ 52 * 2 powi ?u \<le> real_of_int (rne (z / 2 powi ?u)) * 2 powi ?u"
    by (intro mult_right_mono) simp_all
  have "(2::real) powi binade z = 2 ^ 52 * 2 powi ?u"
    using two_powi_add_nat [of ?u 52] u by simp
  also note *
  finally show ?thesis using nz by (simp add: round_double_def)
qed

lemma round_double_mono:
  assumes "0 \<le> x" and "x \<le> y"
  shows "round_double x \<le> round_double y"
proof (cases "x = 0")
  case True
  with assms show ?thesis by (simp add: round_double_nonneg)
next
  case False
  with assms have x: "0 < x" and y: "0 < y" by simp_all
  let ?ux = "quantum_exponent x" and ?uy = "quantum_exponent y"
  from binade_mono [OF x assms(2)] have le: "?ux \<le> ?uy"
    by (simp add: quantum_exponent_def)
  show ?thesis
  proof (cases "?ux = ?uy")
    case True
    from assms(2) have "x / 2 powi ?uy \<le> y / 2 powi ?uy"
      by (simp add: divide_right_mono)
    then have "rne (x / 2 powi ?uy) \<le> rne (y / 2 powi ?uy)"
      by (rule rne_mono)
    then have "real_of_int (rne (x / 2 powi ?uy)) * 2 powi ?uy
        \<le> real_of_int (rne (y / 2 powi ?uy)) * 2 powi ?uy"
      by (intro mult_right_mono) simp_all
    with True x y show ?thesis by (simp add: round_double_def)
  next
    case False
    with le have less: "?ux < ?uy" by simp
    then have bin: "- 1022 \<le> binade y" and uy: "?uy + 52 = binade y"
      by (simp_all add: quantum_exponent_def max_def split: if_splits)
    from less uy have "?ux + 53 \<le> binade y" by simp
    then have "(2::real) powi (?ux + 53) \<le> 2 powi binade y"
      by (rule two_powi_le)
    with round_double_upper [OF x] round_double_lower [OF y bin] show ?thesis
      by linarith
  qed
qed


lemma binade_1: "binade 1 = 0"
  using binade_eq [of 0 1] by simp

lemma round_double_two_53: "round_double 9007199254740992 = 9007199254740992"
  using round_double_eval [of 53 9007199254740992] by simp

lemma round_double_two_53_plus_1: "round_double 9007199254740993 = 9007199254740992"
  using round_double_eval [of 53 9007199254740993] by (simp add: rne_def)

lemma round_double_of_int:
  assumes "0 \<le> m" and "m \<le> 2 ^ 53"
  shows "round_double (of_int m) = of_int m"
proof (cases "m = 0 \<or> m = 2 ^ 53")
  case True
  then show ?thesis using round_double_two_53 by auto
next
  case False
  with assms have m: "1 \<le> m" "m < 2 ^ 53" by simp_all
  let ?x = "real_of_int m"
  from m have x: "0 < ?x" "1 \<le> ?x" "?x < 2 powi 53" by simp_all
  from binade_mono [of 1 ?x] x have lo: "0 \<le> binade ?x" by (simp add: binade_1)
  from x have nz: "?x \<noteq> 0" by simp
  from binade_bounds(1) [OF nz] x have "(2::real) powi binade ?x < 2 powi 53" by simp
  then have hi: "binade ?x < 53" by (rule two_powi_less_cancel)
  define n where "n = nat (52 - binade ?x)"
  from lo hi have u: "quantum_exponent ?x = - int n"
    by (simp add: quantum_exponent_def n_def)
  have p: "(2::real) powi (- int n) = 1 / 2 ^ n"
    by (simp add: power_int_minus field_simps)
  have "?x / 2 powi (- int n) = real_of_int (m * 2 ^ n)"
    by (simp add: p)
  then have "rne (?x / 2 powi (- int n)) = m * 2 ^ n"
    by (simp only: rne_of_int)
  with nz u show ?thesis
    by (simp add: round_double_def p)
qed

lemma round_double_of_nat: "n \<le> 2 ^ 53 \<Longrightarrow> round_double (real n) = real n"
  using round_double_of_int [of "int n"] by simp

lemma round_double_2 [simp]: "round_double 2 = 2"
  using round_double_of_nat [of 2] by simp


lemma float_sum_bounds:
  assumes "\<forall>x \<in> set xs. in_unit x"
  shows "0 \<le> s \<Longrightarrow> s \<le> real (min k (2 ^ 53)) \<Longrightarrow>
    0 \<le> foldl float_add s xs \<and> foldl float_add s xs \<le> real (min (k + length xs) (2 ^ 53))"
  using assms
proof (induction xs arbitrary: s k)
  case Nil
  then show ?case by simp
next
  case (Cons x xs)
  from Cons.prems have x: "0 \<le> x" "x \<le> 1" by (simp_all add: in_unit_def)
  from Cons.prems x have nonneg: "0 \<le> float_add s x"
    by (simp add: float_add_def round_double_nonneg)
  have upper: "float_add s x \<le> real (min (Suc k) (2 ^ 53))"
  proof (cases "k < 2 ^ 53")
    case True
    with Cons.prems x have "s + x \<le> real (Suc k)" by simp
    with Cons.prems x have "round_double (s + x) \<le> round_double (real (Suc k))"
      by (intro round_double_mono) simp_all
    also from True have "\<dots> = real (Suc k)"
      by (intro round_double_of_nat) simp
    finally show ?thesis using True by (simp add: float_add_def)
  next
    case False
    with Cons.prems x have "s + x \<le> 9007199254740993" by simp
    with Cons.prems x have "round_double (s + x) \<le> round_double 9007199254740993"
      by (intro round_double_mono) simp_all
    with False show ?thesis
      by (simp add: float_add_def round_double_two_53_plus_1)
  qed
  from Cons.IH [OF nonneg upper] Cons.prems show ?case by simp
qed

lemma float_of_nat_lower: "real (min n (2 ^ 53)) \<le> float_of_nat n"
proof -
  have "round_double (real (min n (2 ^ 53))) \<le> round_double (real n)"
    by (intro round_double_mono) simp_all
  moreover have "round_double (real (min n (2 ^ 53))) = real (min n (2 ^ 53))"
    by (intro round_double_of_nat) simp
  ultimately show ?thesis by (simp add: float_of_nat_def)
qed

lemma float_mean_in_unit:
  assumes "xs \<noteq> []" and "\<forall>x \<in> set xs. in_unit x"
  shows "in_unit (float_mean xs)"
proof -
  let ?m = "real (min (length xs) (2 ^ 53))"
  from float_sum_bounds [OF assms(2), of 0 0]
  have s: "0 \<le> float_sum xs" "float_sum xs \<le> ?m"
    by (simp_all add: float_sum_def)
  from assms(1) have "1 \<le> ?m" by (cases xs) simp_all
  with float_of_nat_lower [of "length xs"] s
  have c: "0 < float_of_nat (length xs)" "float_sum xs \<le> float_of_nat (length xs)"
    by linarith+
  with s have q: "0 \<le> float_sum xs / float_of_nat (length xs)"
    "float_sum xs / float_of_nat (length xs) \<le> 1"
    by simp_all
  from q have "round_double 0 \<le> float_mean xs"
    unfolding float_mean_def float_div_def by (intro round_double_mono) simp_all
  moreover from q have "float_mean xs \<le> round_double 1"
    unfolding float_mean_def float_div_def by (intro round_double_mono) simp_all
  ultimately show ?thesis by (simp add: in_unit_def)
qed

lemma float_sum_exact:
  "\<forall>k. 1 \<le> k \<and> k \<le> length xs \<longrightarrow> is_double (s + sum_list (take k xs)) \<Longrightarrow>
   foldl float_add s xs = s + sum_list xs"
proof (induction xs arbitrary: s)
  case Nil
  show ?case by simp
next
  case (Cons x xs)
  from Cons.prems [rule_format, of 1] have first: "float_add s x = s + x"
    by (simp add: is_double_def float_add_def)
  have "\<forall>k. 1 \<le> k \<and> k \<le> length xs \<longrightarrow> is_double ((s + x) + sum_list (take k xs))"
  proof (intro allI impI)
    fix k assume "1 \<le> k \<and> k \<le> length xs"
    with Cons.prems [rule_format, of "Suc k"] show "is_double ((s + x) + sum_list (take k xs))"
      by (simp add: add.assoc)
  qed
  from Cons.IH [OF this] first show ?case by (simp add: add.assoc)
qed

lemma float_mean_exact:
  assumes "\<forall>k. 1 \<le> k \<and> k \<le> length xs \<longrightarrow> is_double (sum_list (take k xs))"
    and "is_double (real (length xs))"
    and "is_double (sum_list xs / real (length xs))"
  shows "float_mean xs = sum_list xs / real (length xs)"
proof -
  from assms(1) have "foldl float_add 0 xs = 0 + sum_list xs"
    by (intro float_sum_exact) simp
  with assms(2,3) show ?thesis
    by (simp add: float_mean_def float_sum_def float_div_def float_of_nat_def is_double_def)
qed

section \<open>Basic facts about the tree operations\<close>

lemma py_max_eq_Max: "py_max x xs = Max (set (x # xs))"
proof (induction xs arbitrary: x)
  case Nil
  show ?case by (simp add: py_max_def)
next
  case (Cons y ys)
  have "py_max x (y # ys) = py_max (if y > x then y else x) ys"
    by (simp add: py_max_def)
  also have "\<dots> = Max (set ((if y > x then y else x) # ys))"
    by (rule Cons.IH)
  also have "\<dots> = Max (set (x # y # ys))"
  proof (cases "set ys = {}")
    case True
    then show ?thesis by (simp add: max_def)
  next
    case False
    then show ?thesis by (simp add: max_def)
  qed
  finally show ?case .
qed

lemma sum_count_foldl:
  "foldl (\<lambda>(sum_probs, count) subtree.
            (float_add sum_probs (white_win_probability subtree), count + 1)) (s, c) ts
   = (foldl float_add s (map white_win_probability ts), c + length ts)"
  by (induction ts arbitrary: s c) simp_all

lemma sum_count_eq: "sum_count ts = (float_sum (map white_win_probability ts), length ts)"
  using sum_count_foldl [of 0 0 ts] by (simp add: sum_count_def float_sum_def)

lemma move_update [simp]: "move (update_white_win_probability t) = move t"
  by (simp add: update_white_win_probability_def sum_count_eq split: list.split)

lemma is_white_move_update [simp]:
  "is_white_move (update_white_win_probability t) = is_white_move t"
  by (simp add: update_white_win_probability_def sum_count_eq split: list.split)

lemma subtrees_update [simp]: "subtrees (update_white_win_probability t) = subtrees t"
  by (simp add: update_white_win_probability_def sum_count_eq split: list.split)

lemma prob_update:
  "white_win_probability (update_white_win_probability t) =
     (if subtrees t = [] then white_win_probability t
      else if is_white_move t then Max (set (map white_win_probability (subtrees t)))
      else float_mean (map white_win_probability (subtrees t)))"
  by (simp add: update_white_win_probability_def sum_count_eq py_max_eq_Max float_mean_def
      split: list.split)

text \<open>
  The equations of \<open>insert_move_sequence\<close> on the moves in their own order: reversing
  the copy and popping from its end walks the moves from the first to the last.
\<close>

lemma insert_move_sequence_Nil [simp]: "insert_move_sequence t [] q = t"
  by (simp add: insert_move_sequence_def rec_helper.simps)

lemma insert_move_sequence_Cons:
  "insert_move_sequence t (m # ms) q =
     (case find_subtree_by_move t m of
        None \<Rightarrow>
          update_white_win_probability
            (GameTree (move t) (is_white_move t) (white_win_probability t)
               (subtrees t @
                  [insert_move_sequence (GameTree m (\<not> is_white_move t) q []) ms q]))
      | Some _ \<Rightarrow>
          update_white_win_probability
            (GameTree (move t) (is_white_move t) (white_win_probability t)
               (update_first (\<lambda>subtree. move subtree = m)
                  (\<lambda>move_tree. insert_move_sequence move_tree ms q) (subtrees t))))"
  unfolding insert_move_sequence_def
  by (subst rec_helper.simps) (simp add: Let_def split: option.split)

lemma move_insert_move_sequence [simp]: "move (insert_move_sequence t ms q) = move t"
  by (cases ms) (simp_all add: insert_move_sequence_Cons split: option.split)

lemma is_white_move_insert_move_sequence [simp]:
  "is_white_move (insert_move_sequence t ms q) = is_white_move t"
  by (cases ms) (simp_all add: insert_move_sequence_Cons split: option.split)

lemma find_update_first_same:
  "(\<And>x. P x \<Longrightarrow> P (f x)) \<Longrightarrow> find P (update_first P f xs) = map_option f (find P xs)"
  by (induction xs) auto

lemma find_update_first_other:
  "(\<And>x. P x \<Longrightarrow> \<not> Q x \<and> \<not> Q (f x)) \<Longrightarrow> find Q (update_first P f xs) = find Q xs"
  by (induction xs) auto

lemma find_append_new:
  "find P xs = None \<Longrightarrow> find P (xs @ [y]) = (if P y then Some y else None)"
  by (induction xs) (auto split: if_splits)

lemma find_append_old:
  "find P xs = Some x \<Longrightarrow> find P (xs @ ys) = Some x"
  by (induction xs) (auto split: if_splits)

text \<open>The subtree found for the first move of an inserted path.\<close>

lemma find_insert_same:
  "find_subtree_by_move (insert_move_sequence t (m # ms) q) m =
     Some (insert_move_sequence
             (case find_subtree_by_move t m of
                None \<Rightarrow> GameTree m (\<not> is_white_move t) q [] | Some c \<Rightarrow> c) ms q)"
  by (simp add: insert_move_sequence_Cons find_subtree_by_move_def find_append_new
      find_update_first_same split: option.split)

lemma find_insert_other:
  assumes "m' \<noteq> m"
  shows "find_subtree_by_move (insert_move_sequence t (m # ms) q) m' = find_subtree_by_move t m'"
proof (cases "find_subtree_by_move t m")
  case None
  then show ?thesis using assms
    apply (simp add: insert_move_sequence_Cons find_subtree_by_move_def)
    apply (cases "find (\<lambda>subtree. move subtree = m') (subtrees t)")
     apply (simp_all add: find_append_new find_append_old)
    done
next
  case (Some c)
  then show ?thesis using assms
    by (simp add: insert_move_sequence_Cons find_subtree_by_move_def)
      (rule find_update_first_other, simp)
qed

lemma lookup_path_insert_self: "lookup_path (insert_move_sequence t ms q) ms \<noteq> None"
  by (induction ms arbitrary: t) (simp_all add: find_insert_same)

lemma lookup_path_insert_mono:
  "lookup_path t P \<noteq> None \<Longrightarrow> lookup_path (insert_move_sequence t ms q) P \<noteq> None"
proof (induction P arbitrary: t ms)
  case Nil
  show ?case by simp
next
  case (Cons m P)
  then obtain c where c: "find_subtree_by_move t m = Some c" "lookup_path c P \<noteq> None"
    by (auto split: option.splits)
  show ?case
  proof (cases ms)
    case Nil
    with Cons.prems show ?thesis by simp
  next
    case (Cons m' ms')
    show ?thesis
    proof (cases "m' = m")
      case True
      with c Cons.IH [of c ms'] show ?thesis
        by (simp add: \<open>ms = m' # ms'\<close> find_insert_same)
    next
      case False
      with c show ?thesis
        by (simp add: \<open>ms = m' # ms'\<close> find_insert_other)
    qed
  qed
qed

lemma lookup_path_take: "lookup_path t P \<noteq> None \<Longrightarrow> lookup_path t (take k P) \<noteq> None"
proof (induction P arbitrary: t k)
  case Nil
  show ?case by simp
next
  case (Cons m P)
  then show ?case by (cases k) (auto split: option.splits)
qed

lemma length_update_first [simp]: "length (update_first P f xs) = length xs"
  by (induction xs) auto

lemma update_first_eq_Nil [simp]: "update_first P f xs = [] \<longleftrightarrow> xs = []"
  by (cases xs) auto

lemma subtrees_insert_nonempty: "ms \<noteq> [] \<Longrightarrow> subtrees (insert_move_sequence t ms q) \<noteq> []"
  by (cases ms) (auto simp: insert_move_sequence_Cons find_subtree_by_move_def
      split: option.split)

lemma recomputed_update: "subtrees t \<noteq> [] \<Longrightarrow> recomputed (update_white_win_probability t)"
  by (simp add: recomputed_def prob_update)

lemma recomputed_insert_root: "ms \<noteq> [] \<Longrightarrow> recomputed (insert_move_sequence t ms q)"
  by (cases ms) (auto simp: insert_move_sequence_Cons find_subtree_by_move_def
      split: option.split intro!: recomputed_update)

lemma recomputed_insert_steps:
  "k < length P \<Longrightarrow>
   \<exists>n. lookup_path (insert_move_sequence t P q) (take k P) = Some n \<and>
       subtrees n \<noteq> [] \<and> recomputed n"
proof (induction P arbitrary: t k)
  case Nil
  then show ?case by simp
next
  case (Cons m P)
  show ?case
  proof (cases k)
    case 0
    then show ?thesis
      by (simp add: recomputed_insert_root subtrees_insert_nonempty)
  next
    case (Suc k')
    with Cons.prems have "k' < length P" by simp
    from Cons.IH [OF this] Suc show ?thesis
      by (simp add: find_insert_same)
  qed
qed

section \<open>The recomputation rule\<close>

lemma round_double_3: "round_double 3 = 3"
  using round_double_of_nat [of 3] by simp

text \<open>
  Claim C1, as stated, fails at a Black node: the code adds and divides doubles. With
  subtree values 1.0, 0.0 and 0.0 the recomputed value is the double next to one third,
  \<open>6004799503160661 / 2^54\<close> (printed 0.3333333333333333), not the arithmetic mean
  \<open>1/3\<close>.
\<close>

theorem update_white_win_probability_counterexample:
  "white_win_probability
     (update_white_win_probability
        (GameTree ''a2b3'' False 0
           [GameTree ''d2c3'' True 1 [], GameTree ''b1d3'' True 0 [],
            GameTree ''c1d2'' True 0 []]))
     = 6004799503160661 / 18014398509481984
   \<and> white_win_probability
     (update_white_win_probability
        (GameTree ''a2b3'' False 0
           [GameTree ''d2c3'' True 1 [], GameTree ''b1d3'' True 0 [],
            GameTree ''c1d2'' True 0 []]))
     \<noteq> sum_list (map white_win_probability
           [GameTree ''d2c3'' True 1 [], GameTree ''b1d3'' True 0 [],
            GameTree ''c1d2'' True 0 []])
         / real (length
           [GameTree ''d2c3'' True 1 [], GameTree ''b1d3'' True 0 [],
            GameTree ''c1d2'' True 0 []])"
  by (simp add: update_white_win_probability_def sum_count_eq float_sum_def float_add_def
      float_div_def float_of_nat_def round_double_3 round_double_third)

text \<open>
  Claim C1, amended. Recomputing a node's cached estimate with
  \<open>_update_white_win_probability\<close> sets \<open>white_win_probability\<close> to the maximum of the
  subtrees' values when \<open>is_white_move\<close> is true; when it is false, to the mean of the
  subtrees' values as double arithmetic computes it (the values added from the left,
  every addition rounded to the nearest double, and the sum divided by the count with
  one more rounding), which is the arithmetic mean whenever the partial sums, the count
  and the quotient are doubles. It leaves the value unchanged when the node has no
  subtrees, and changes nothing else of the node. \<open>add_subtree\<close> recomputes the node
  after the append, and after \<open>insert_move_sequence\<close> every node that one of its steps
  visited with a move still to insert has subtrees and holds the recomputed value.
\<close>

theorem update_white_win_probability_rule:
  "white_win_probability (update_white_win_probability t) =
     (if subtrees t = [] then white_win_probability t
      else if is_white_move t then Max (set (map white_win_probability (subtrees t)))
      else float_mean (map white_win_probability (subtrees t)))
   \<and> ((\<forall>k. 1 \<le> k \<and> k \<le> length (subtrees t) \<longrightarrow>
           is_double (sum_list (take k (map white_win_probability (subtrees t)))))
        \<and> is_double (real (length (subtrees t)))
        \<and> is_double (sum_list (map white_win_probability (subtrees t))
                       / real (length (subtrees t)))
        \<longrightarrow> float_mean (map white_win_probability (subtrees t))
            = sum_list (map white_win_probability (subtrees t)) / real (length (subtrees t)))
   \<and> move (update_white_win_probability t) = move t
   \<and> is_white_move (update_white_win_probability t) = is_white_move t
   \<and> subtrees (update_white_win_probability t) = subtrees t
   \<and> subtrees (add_subtree t s) = subtrees t @ [s]
   \<and> recomputed (add_subtree t s)
   \<and> (\<forall>k < length P. \<exists>n. lookup_path (insert_move_sequence t P q) (take k P) = Some n \<and>
         subtrees n \<noteq> [] \<and> recomputed n)"
proof -
  have exact: "float_mean (map white_win_probability (subtrees t))
      = sum_list (map white_win_probability (subtrees t)) / real (length (subtrees t))"
    if "\<forall>k. 1 \<le> k \<and> k \<le> length (subtrees t) \<longrightarrow>
           is_double (sum_list (take k (map white_win_probability (subtrees t))))"
      and "is_double (real (length (subtrees t)))"
      and "is_double (sum_list (map white_win_probability (subtrees t))
                       / real (length (subtrees t)))"
    using float_mean_exact [of "map white_win_probability (subtrees t)"] that by simp
  from exact recomputed_insert_steps [of _ P t q] show ?thesis
    by (simp add: prob_update add_subtree_def recomputed_update)
qed

text \<open>
  The rule at a White node with values 1/4 and 3/4; at a Black node with values 1 and 0,
  where the partial sums 1 and 1, the count 2 and the quotient 1/2 are doubles and the
  value is the arithmetic mean 1/2; at a node without subtrees; and at the root after an
  insertion.
\<close>

theorem update_white_win_probability_rule_witness:
  "white_win_probability
     (update_white_win_probability
        (GameTree ''*'' True 0
           [GameTree ''a2b3'' False (1/4) [], GameTree ''b2c3'' False (3/4) []])) = 3/4
   \<and> is_double (real (length [GameTree ''d2c3'' True 1 [], GameTree ''b1d3'' True 0 []]))
   \<and> is_double (sum_list (map white_win_probability
          [GameTree ''d2c3'' True 1 [], GameTree ''b1d3'' True 0 []])
        / real (length [GameTree ''d2c3'' True 1 [], GameTree ''b1d3'' True 0 []]))
   \<and> white_win_probability
       (update_white_win_probability
          (GameTree ''a2b3'' False 0
             [GameTree ''d2c3'' True 1 [], GameTree ''b1d3'' True 0 []])) = 1/2
   \<and> white_win_probability (update_white_win_probability (GameTree ''a2b3'' False (1/4) []))
       = 1/4
   \<and> (0::nat) < length [''a2b3'', ''d2c3'']
   \<and> (\<exists>n. lookup_path
            (insert_move_sequence
               (GameTree ''*'' True 0
                  [GameTree ''a2b3'' False 0 [], GameTree ''b2c3'' False 0 []])
               [''a2b3'', ''d2c3''] 1)
            (take 0 [''a2b3'', ''d2c3'']) = Some n
          \<and> subtrees n \<noteq> [] \<and> recomputed n)"
proof -
  let ?b = "GameTree ''a2b3'' False 0
             [GameTree ''d2c3'' True 1 [], GameTree ''b1d3'' True 0 []]"
  have a: "white_win_probability
     (update_white_win_probability
        (GameTree ''*'' True 0
           [GameTree ''a2b3'' False (1/4) [], GameTree ''b2c3'' False (3/4) []])) = 3/4"
    using update_white_win_probability_rule
      [of "GameTree ''*'' True 0
           [GameTree ''a2b3'' False (1/4) [], GameTree ''b2c3'' False (3/4) []]",
       THEN conjunct1]
    by simp
  have d1: "\<forall>k. 1 \<le> k \<and> k \<le> length (subtrees ?b) \<longrightarrow>
      is_double (sum_list (take k (map white_win_probability (subtrees ?b))))"
  proof (intro allI impI)
    fix k :: nat
    assume "1 \<le> k \<and> k \<le> length (subtrees ?b)"
    then have "k = 1 \<or> k = 2" by auto
    then show "is_double (sum_list (take k (map white_win_probability (subtrees ?b))))"
      by (auto simp: is_double_def)
  qed
  have d2: "is_double (real (length (subtrees ?b)))"
    by (simp add: is_double_def)
  have d3: "is_double (sum_list (map white_win_probability (subtrees ?b))
      / real (length (subtrees ?b)))"
    by (simp add: is_double_def round_double_half)
  have "float_mean (map white_win_probability (subtrees ?b))
      = sum_list (map white_win_probability (subtrees ?b)) / real (length (subtrees ?b))"
    using update_white_win_probability_rule [of ?b, THEN conjunct2, THEN conjunct1] d1 d2 d3
    by blast
  with update_white_win_probability_rule [of ?b, THEN conjunct1]
  have b: "white_win_probability (update_white_win_probability ?b) = 1/2"
    by simp
  have c: "white_win_probability (update_white_win_probability (GameTree ''a2b3'' False (1/4) []))
       = 1/4"
    using update_white_win_probability_rule [of "GameTree ''a2b3'' False (1/4) []",
        THEN conjunct1]
    by simp
  have "\<forall>k < length [''a2b3'', ''d2c3''].
          \<exists>n. lookup_path
            (insert_move_sequence
               (GameTree ''*'' True 0
                  [GameTree ''a2b3'' False 0 [], GameTree ''b2c3'' False 0 []])
               [''a2b3'', ''d2c3''] 1)
            (take k [''a2b3'', ''d2c3'']) = Some n
          \<and> subtrees n \<noteq> [] \<and> recomputed n"
    using update_white_win_probability_rule
      [of "GameTree ''*'' True 0
             [GameTree ''a2b3'' False 0 [], GameTree ''b2c3'' False 0 []]"
          "GameTree ''*'' True 0 []" "[''a2b3'', ''d2c3'']" 1]
    by blast
  then have d: "\<exists>n. lookup_path
            (insert_move_sequence
               (GameTree ''*'' True 0
                  [GameTree ''a2b3'' False 0 [], GameTree ''b2c3'' False 0 []])
               [''a2b3'', ''d2c3''] 1)
            (take 0 [''a2b3'', ''d2c3'']) = Some n
          \<and> subtrees n \<noteq> [] \<and> recomputed n"
    by (elim allE [of _ "0::nat"]) simp
  from d2 d3 have e: "is_double (real (length [GameTree ''d2c3'' True 1 [],
      GameTree ''b1d3'' True 0 []]))"
    "is_double (sum_list (map white_win_probability
          [GameTree ''d2c3'' True 1 [], GameTree ''b1d3'' True 0 []])
        / real (length [GameTree ''d2c3'' True 1 [], GameTree ''b1d3'' True 0 []]))"
    by simp_all
  from a b c d e show ?thesis by simp
qed

section \<open>Inserted paths are found\<close>

lemma lookup_path_insert_move_sequences_mono:
  "lookup_path t P \<noteq> None \<Longrightarrow> lookup_path (insert_move_sequences t calls) P \<noteq> None"
proof (induction calls arbitrary: t)
  case Nil
  then show ?case by (simp add: insert_move_sequences_def)
next
  case (Cons c calls)
  obtain ms q where c: "c = (ms, q)" by (cases c)
  have "lookup_path (insert_move_sequence t ms q) P \<noteq> None"
    using Cons.prems by (rule lookup_path_insert_mono)
  from Cons.IH [OF this] show ?case
    by (simp add: insert_move_sequences_def c)
qed

lemma insert_move_sequences_append:
  "insert_move_sequences t (xs @ ys) = insert_move_sequences (insert_move_sequences t xs) ys"
  by (simp add: insert_move_sequences_def)

text \<open>
  Claim C3. After any finite sequence of \<open>insert_move_sequence\<close> calls on a tree, the
  stepwise lookup with \<open>find_subtree_by_move\<close> along the moves of any path that one of the
  calls inserted finds a node at every step: no inserted path is lost.
\<close>

theorem inserted_paths_found:
  assumes "(P, q) \<in> set calls" and "k \<le> length P"
  shows "lookup_path (insert_move_sequences t calls) (take k P) \<noteq> None"
proof -
  from assms(1) obtain xs ys where calls: "calls = xs @ (P, q) # ys"
    by (auto simp: in_set_conv_decomp)
  have "lookup_path (insert_move_sequence (insert_move_sequences t xs) P q) P \<noteq> None"
    by (rule lookup_path_insert_self)
  then have "lookup_path (insert_move_sequences t calls) P \<noteq> None"
    unfolding calls insert_move_sequences_append
    using lookup_path_insert_move_sequences_mono
      [of "insert_move_sequence (insert_move_sequences t xs) P q" P ys]
    by (simp add: insert_move_sequences_def)
  then show ?thesis by (rule lookup_path_take)
qed

lemmas tree_eval =
  insert_move_sequence_Cons find_subtree_by_move_def update_white_win_probability_def
  py_max_def sum_count_eq float_sum_def float_add_def float_div_def float_of_nat_def
  insert_move_sequences_def new_GameTree_def default_GameTree_def
  GAME_START_MOVE_def get_subtrees_def add_subtree_def

text \<open>
  Two games with a common first move, then a third game: the first game's path is found
  at each of its three prefixes.
\<close>

theorem inserted_paths_found_witness:
  "([''a2b3'', ''d4d3''], 1) \<in>
     set [([''a2b3'', ''d4d3''], 1), ([''a2b3'', ''c4c3''], 0), ([''b2c3''], 0)]
   \<and> (2::nat) \<le> length [''a2b3'', ''d4d3'']
   \<and> lookup_path
        (insert_move_sequences default_GameTree
           [([''a2b3'', ''d4d3''], 1), ([''a2b3'', ''c4c3''], 0), ([''b2c3''], 0)])
        (take 2 [''a2b3'', ''d4d3'']) \<noteq> None"
  using inserted_paths_found
    [of "[''a2b3'', ''d4d3'']" 1
        "[([''a2b3'', ''d4d3''], 1), ([''a2b3'', ''c4c3''], 0), ([''b2c3''], 0)]" 2
        default_GameTree]
  by simp

section \<open>Inserting a path that is already present\<close>

text \<open>
  Claim C4, as stated, fails: a path inserted with probability 0 and inserted again with
  probability 1 ends in a node that still holds 0. \<open>rec_helper\<close> returns at once on the
  empty list of moves, so the last node of a path that is present is not assigned.
\<close>

theorem reinsert_overwrite_counterexample:
  "[''a2b3'', ''d2c3''] \<noteq> []
   \<and> lookup_path (insert_move_sequence default_GameTree [''a2b3'', ''d2c3''] 0)
        [''a2b3'', ''d2c3''] = Some (GameTree ''d2c3'' True 0 [])
   \<and> map_option white_win_probability
        (lookup_path
           (insert_move_sequence
              (insert_move_sequence default_GameTree [''a2b3'', ''d2c3''] 0)
              [''a2b3'', ''d2c3''] 1)
           [''a2b3'', ''d2c3'']) = Some 0
   \<and> map_option white_win_probability
        (lookup_path
           (insert_move_sequence
              (insert_move_sequence default_GameTree [''a2b3'', ''d2c3''] 0)
              [''a2b3'', ''d2c3''] 1)
           [''a2b3'', ''d2c3'']) \<noteq> Some 1"
  by (simp add: tree_eval)

lemma shape_sel [simp]:
  "move (shape t) = move t" "is_white_move (shape t) = is_white_move t"
  "subtrees (shape t) = map shape (subtrees t)"
  by (cases t; simp)+

lemma shape_eq: "shape t = GameTree (move t) (is_white_move t) 0 (map shape (subtrees t))"
  by (cases t) simp

lemma shape_update [simp]: "shape (update_white_win_probability t) = shape t"
  by (subst (1 2) shape_eq) simp

lemma map_update_first_same:
  "find P xs = Some x \<Longrightarrow> g (f x) = g x \<Longrightarrow> map g (update_first P f xs) = map g xs"
  by (induction xs) (auto split: if_splits)

lemma update_first_cong_found:
  "find P xs = Some x \<Longrightarrow> f x = g x \<Longrightarrow> update_first P f xs = update_first P g xs"
  by (induction xs) (auto split: if_splits)

text \<open>
  Claim C4, amended. When the whole chain of nodes of a path \<open>P\<close> is present in the
  tree, \<open>insert_move_sequence(P, q)\<close> overwrites nothing with \<open>q\<close>: the node at the end
  of \<open>P\<close> keeps its win probability and its subtrees; so does every node that the
  stepwise lookup reaches by a path other than a proper prefix of \<open>P\<close>; no node is
  created; and the tree that results is the same for every \<open>q\<close> (the nodes at the proper
  prefixes of \<open>P\<close> are only recomputed from their subtrees).
\<close>

theorem reinsert_keeps_last_node:
  "lookup_path t P = Some n \<Longrightarrow>
   lookup_path (insert_move_sequence t P q) P = Some n
   \<and> (\<forall>P'. (\<forall>k < length P. P' \<noteq> take k P) \<longrightarrow>
         lookup_path (insert_move_sequence t P q) P' = lookup_path t P')
   \<and> shape (insert_move_sequence t P q) = shape t
   \<and> insert_move_sequence t P q = insert_move_sequence t P q'"
proof (induction P arbitrary: t)
  case Nil
  then show ?case by simp
next
  case (Cons m P)
  then obtain c where c: "find_subtree_by_move t m = Some c" "lookup_path c P = Some n"
    by (auto split: option.splits)
  note IH = Cons.IH [OF c(2)]
  from c(1) have f: "find (\<lambda>subtree. move subtree = m) (subtrees t) = Some c"
    by (simp add: find_subtree_by_move_def)
  from IH have "lookup_path (insert_move_sequence c P q) P = Some n" by blast
  with c(1) have last: "lookup_path (insert_move_sequence t (m # P) q) (m # P) = Some n"
    by (simp add: find_insert_same)
  have frame: "lookup_path (insert_move_sequence t (m # P) q) P' = lookup_path t P'"
    if "\<forall>k < length (m # P). P' \<noteq> take k (m # P)" for P'
  proof (cases P')
    case Nil
    with that [rule_format, of 0] show ?thesis by simp
  next
    case (Cons m' ms')
    show ?thesis
    proof (cases "m' = m")
      case False
      then show ?thesis
        by (simp add: Cons find_insert_other)
    next
      case True
      have "\<forall>k < length P. ms' \<noteq> take k P"
      proof (intro allI impI)
        fix k assume "k < length P"
        with that [rule_format, of "Suc k"] Cons True show "ms' \<noteq> take k P" by simp
      qed
      with IH have "lookup_path (insert_move_sequence c P q) ms' = lookup_path c ms'"
        by blast
      with c(1) True show ?thesis
        by (simp add: Cons find_insert_same)
    qed
  qed
  from IH have "shape (insert_move_sequence c P q) = shape c" by blast
  with f have "map shape (update_first (\<lambda>subtree. move subtree = m)
      (\<lambda>move_tree. insert_move_sequence move_tree P q) (subtrees t)) = map shape (subtrees t)"
    by (rule map_update_first_same)
  with c(1) have same_shape: "shape (insert_move_sequence t (m # P) q) = shape t"
    by (simp add: insert_move_sequence_Cons) (simp add: shape_eq [of t])
  from IH have "insert_move_sequence c P q = insert_move_sequence c P q'" by blast
  with f have "update_first (\<lambda>subtree. move subtree = m)
      (\<lambda>move_tree. insert_move_sequence move_tree P q) (subtrees t)
    = update_first (\<lambda>subtree. move subtree = m)
      (\<lambda>move_tree. insert_move_sequence move_tree P q') (subtrees t)"
    by (rule update_first_cong_found)
  with c(1) have indep: "insert_move_sequence t (m # P) q = insert_move_sequence t (m # P) q'"
    by (simp add: insert_move_sequence_Cons)
  from last frame same_shape indep show ?case by blast
qed

text \<open>
  The root has the subtree \<open>a2b3\<close> with probability 1/2; inserting the path \<open>a2b3\<close>
  with probability 1 leaves that node as it is, and the result is the same as with
  probability 0.
\<close>

theorem reinsert_keeps_last_node_witness:
  "lookup_path (GameTree ''*'' True 0 [GameTree ''a2b3'' False (1/2) []]) [''a2b3'']
     = Some (GameTree ''a2b3'' False (1/2) [])
   \<and> lookup_path
        (insert_move_sequence (GameTree ''*'' True 0 [GameTree ''a2b3'' False (1/2) []])
           [''a2b3''] 1) [''a2b3'']
     = Some (GameTree ''a2b3'' False (1/2) [])
   \<and> insert_move_sequence (GameTree ''*'' True 0 [GameTree ''a2b3'' False (1/2) []])
        [''a2b3''] 1
     = insert_move_sequence (GameTree ''*'' True 0 [GameTree ''a2b3'' False (1/2) []])
        [''a2b3''] 0"
proof -
  have h: "lookup_path (GameTree ''*'' True 0 [GameTree ''a2b3'' False (1/2) []]) [''a2b3'']
     = Some (GameTree ''a2b3'' False (1/2) [])"
    by (simp add: find_subtree_by_move_def)
  from reinsert_keeps_last_node [OF h, of 1 0]
  have "lookup_path
        (insert_move_sequence (GameTree ''*'' True 0 [GameTree ''a2b3'' False (1/2) []])
           [''a2b3''] 1) [''a2b3'']
     = Some (GameTree ''a2b3'' False (1/2) [])"
    and "insert_move_sequence (GameTree ''*'' True 0 [GameTree ''a2b3'' False (1/2) []])
        [''a2b3''] 1
     = insert_move_sequence (GameTree ''*'' True 0 [GameTree ''a2b3'' False (1/2) []])
        [''a2b3''] 0"
    by blast+
  with h show ?thesis by (intro conjI)
qed

section \<open>Inserting a path again\<close>

lemma shape_insert_present:
  "lookup_path t P \<noteq> None \<Longrightarrow> shape (insert_move_sequence t P q) = shape t"
proof (induction P arbitrary: t)
  case Nil
  show ?case by simp
next
  case (Cons m P)
  then obtain c where c: "find_subtree_by_move t m = Some c" "lookup_path c P \<noteq> None"
    by (auto split: option.splits)
  from c(2) have "shape (insert_move_sequence c P q) = shape c"
    by (rule Cons.IH)
  with c(1) have "map shape (update_first (\<lambda>subtree. move subtree = m)
      (\<lambda>move_tree. insert_move_sequence move_tree P q) (subtrees t)) = map shape (subtrees t)"
    by (intro map_update_first_same [where x = c]) (simp_all add: find_subtree_by_move_def)
  with c(1) show ?case
    by (simp add: insert_move_sequence_Cons) (simp add: shape_eq [of t])
qed

lemma find_shape:
  "find_subtree_by_move (shape t) m = map_option shape (find_subtree_by_move t m)"
proof -
  have "find (\<lambda>s. move s = m) (map shape ts) = map_option shape (find (\<lambda>s. move s = m) ts)"
    for ts
    by (induction ts) simp_all
  then show ?thesis by (simp add: find_subtree_by_move_def)
qed

lemma child_counts_shape: "child_counts (shape t) P = child_counts t P"
proof (induction P arbitrary: t)
  case Nil
  show ?case by simp
next
  case (Cons m P)
  show ?case
    by (cases "find_subtree_by_move t m") (simp_all add: find_shape Cons.IH)
qed

lemma no_duplicate_siblings_iff:
  "no_duplicate_siblings t \<longleftrightarrow>
     distinct (map move (subtrees t)) \<and> (\<forall>c \<in> set (subtrees t). no_duplicate_siblings c)"
  by (cases t) simp

lemma no_duplicate_siblings_update [simp]:
  "no_duplicate_siblings (update_white_win_probability t) = no_duplicate_siblings t"
  by (subst (1 2) no_duplicate_siblings_iff) simp

lemma set_update_first:
  "set (update_first P f xs) \<subseteq> set xs \<union> (case find P xs of None \<Rightarrow> {} | Some x \<Rightarrow> {f x})"
  by (induction xs) auto

lemma map_move_update_first:
  "(\<And>x. g (f x) = g x) \<Longrightarrow> map g (update_first P f xs) = map g xs"
  by (induction xs) auto

lemma no_duplicate_siblings_insert:
  "no_duplicate_siblings t \<Longrightarrow> no_duplicate_siblings (insert_move_sequence t ms q)"
proof (induction ms arbitrary: t)
  case Nil
  then show ?case by simp
next
  case (Cons m ms)
  from Cons.prems have d: "distinct (map move (subtrees t))"
    and cs: "\<And>c. c \<in> set (subtrees t) \<Longrightarrow> no_duplicate_siblings c"
    by (simp_all add: no_duplicate_siblings_iff [of t])
  show ?case
  proof (cases "find_subtree_by_move t m")
    case None
    then have "m \<notin> set (map move (subtrees t))"
      by (auto simp: find_subtree_by_move_def find_None_iff)
    moreover have "no_duplicate_siblings
        (insert_move_sequence (GameTree m (\<not> is_white_move t) q []) ms q)"
      by (rule Cons.IH) simp
    ultimately show ?thesis using None d cs
      by (simp add: insert_move_sequence_Cons)
  next
    case (Some c)
    then have "c \<in> set (subtrees t)"
      by (auto simp: find_subtree_by_move_def find_Some_iff)
    then have "no_duplicate_siblings (insert_move_sequence c ms q)"
      by (intro Cons.IH cs)
    moreover have "set (update_first (\<lambda>subtree. move subtree = m)
        (\<lambda>move_tree. insert_move_sequence move_tree ms q) (subtrees t))
        \<subseteq> set (subtrees t) \<union> {insert_move_sequence c ms q}"
      using set_update_first [of "\<lambda>subtree. move subtree = m" _ "subtrees t"] Some
      by (simp add: find_subtree_by_move_def)
    ultimately have "\<forall>x \<in> set (update_first (\<lambda>subtree. move subtree = m)
        (\<lambda>move_tree. insert_move_sequence move_tree ms q) (subtrees t)).
        no_duplicate_siblings x"
      using cs by blast
    moreover have "distinct (map move (update_first (\<lambda>subtree. move subtree = m)
        (\<lambda>move_tree. insert_move_sequence move_tree ms q) (subtrees t)))"
      using d by (simp add: map_move_update_first)
    ultimately show ?thesis using Some
      by (simp add: insert_move_sequence_Cons)
  qed
qed


lemma siblings_distinct_along_leaf: "subtrees n = [] \<Longrightarrow> siblings_distinct_along n ms"
  by (cases ms) (simp_all add: find_subtree_by_move_def)

lemma siblings_distinct_along_insert:
  "siblings_distinct_along t P \<Longrightarrow> siblings_distinct_along (insert_move_sequence t P q) P"
proof (induction P arbitrary: t)
  case Nil
  then show ?case by simp
next
  case (Cons m P)
  from Cons.prems have d: "distinct (map move (subtrees t))" by simp
  show ?case
  proof (cases "find_subtree_by_move t m")
    case None
    then have "m \<notin> set (map move (subtrees t))"
      by (auto simp: find_subtree_by_move_def find_None_iff)
    with d None have "distinct (map move (subtrees (insert_move_sequence t (m # P) q)))"
      by (simp add: insert_move_sequence_Cons)
    moreover have "siblings_distinct_along
        (insert_move_sequence (GameTree m (\<not> is_white_move t) q []) P q) P"
      by (intro Cons.IH siblings_distinct_along_leaf) simp
    ultimately show ?thesis using None
      by (simp add: find_insert_same)
  next
    case (Some c)
    with d have "distinct (map move (subtrees (insert_move_sequence t (m # P) q)))"
      by (simp add: insert_move_sequence_Cons map_move_update_first)
    moreover from Cons.prems Some have "siblings_distinct_along (insert_move_sequence c P q) P"
      by (intro Cons.IH) simp
    ultimately show ?thesis using Some
      by (simp add: find_insert_same)
  qed
qed

lemma length_child_counts:
  "lookup_path t P \<noteq> None \<Longrightarrow> length (child_counts t P) = Suc (length P)"
  by (induction P arbitrary: t) (auto split: option.splits)

text \<open>
  Claim C2. Inserting a path \<open>P\<close>, or a prefix of it, into a tree into which \<open>P\<close> was
  already inserted creates no node: the tree keeps its shape, so every node along \<open>P\<close>
  (each of them is present) has as many subtrees as after the first insertion. Any
  insertion keeps the subtrees pairwise distinct by move label, at the nodes along its
  path and in the whole tree.
\<close>

theorem reinsert_creates_no_duplicates:
  "shape (insert_move_sequence (insert_move_sequence t P q) (take k P) q')
     = shape (insert_move_sequence t P q)
   \<and> child_counts (insert_move_sequence (insert_move_sequence t P q) (take k P) q') P
     = child_counts (insert_move_sequence t P q) P
   \<and> length (child_counts (insert_move_sequence t P q) P) = Suc (length P)
   \<and> (siblings_distinct_along t P \<longrightarrow>
        siblings_distinct_along (insert_move_sequence t P q) P)
   \<and> (no_duplicate_siblings t \<longrightarrow> no_duplicate_siblings (insert_move_sequence t P q))"
proof -
  let ?t1 = "insert_move_sequence t P q"
  let ?t2 = "insert_move_sequence ?t1 (take k P) q'"
  have found: "lookup_path ?t1 P \<noteq> None"
    by (rule lookup_path_insert_self)
  then have "lookup_path ?t1 (take k P) \<noteq> None"
    by (rule lookup_path_take)
  then have same: "shape ?t2 = shape ?t1"
    by (rule shape_insert_present)
  have "child_counts ?t2 P = child_counts (shape ?t2) P"
    by (simp only: child_counts_shape)
  also have "\<dots> = child_counts ?t1 P"
    by (simp only: same child_counts_shape)
  finally have counts: "child_counts ?t2 P = child_counts ?t1 P" .
  from found have len: "length (child_counts ?t1 P) = Suc (length P)"
    by (rule length_child_counts)
  from same counts len show ?thesis
    by (simp add: siblings_distinct_along_insert no_duplicate_siblings_insert)
qed

text \<open>
  A tree with two moves under the root; the path \<open>a2b3, d2c3\<close> is inserted and then
  inserted again with another probability.
\<close>

theorem reinsert_creates_no_duplicates_witness:
  "siblings_distinct_along
     (GameTree ''*'' True 0 [GameTree ''a2b3'' False 0 [], GameTree ''b2c3'' False 0 []])
     [''a2b3'', ''d2c3'']
   \<and> no_duplicate_siblings
     (GameTree ''*'' True 0 [GameTree ''a2b3'' False 0 [], GameTree ''b2c3'' False 0 []])
   \<and> siblings_distinct_along
     (insert_move_sequence
        (GameTree ''*'' True 0 [GameTree ''a2b3'' False 0 [], GameTree ''b2c3'' False 0 []])
        [''a2b3'', ''d2c3''] 1)
     [''a2b3'', ''d2c3'']
   \<and> no_duplicate_siblings
     (insert_move_sequence
        (GameTree ''*'' True 0 [GameTree ''a2b3'' False 0 [], GameTree ''b2c3'' False 0 []])
        [''a2b3'', ''d2c3''] 1)
   \<and> child_counts
     (insert_move_sequence
        (insert_move_sequence
           (GameTree ''*'' True 0 [GameTree ''a2b3'' False 0 [], GameTree ''b2c3'' False 0 []])
           [''a2b3'', ''d2c3''] 1)
        (take 2 [''a2b3'', ''d2c3'']) 0)
     [''a2b3'', ''d2c3''] = [2, 1, 0]"
proof -
  let ?t = "GameTree ''*'' True 0 [GameTree ''a2b3'' False 0 [], GameTree ''b2c3'' False 0 []]"
  have h1: "siblings_distinct_along ?t [''a2b3'', ''d2c3'']"
    by (simp add: find_subtree_by_move_def)
  have h2: "no_duplicate_siblings ?t"
    by simp
  have c: "child_counts (insert_move_sequence ?t [''a2b3'', ''d2c3''] 1) [''a2b3'', ''d2c3'']
      = [2, 1, 0]"
    by (simp add: tree_eval)
  from h1 h2 c reinsert_creates_no_duplicates [of ?t "[''a2b3'', ''d2c3'']" 1 2 0]
  show ?thesis by simp
qed

section \<open>Probabilities stay in the unit interval\<close>

lemma nodes_eq: "nodes t = t # concat (map nodes (subtrees t))"
  by (cases t) simp

lemma all_in_unit_iff:
  "(\<forall>n \<in> set (nodes t). in_unit (white_win_probability n)) \<longleftrightarrow>
     in_unit (white_win_probability t) \<and>
     (\<forall>c \<in> set (subtrees t). \<forall>n \<in> set (nodes c). in_unit (white_win_probability n))"
  by (subst nodes_eq) auto

lemma root_in_nodes: "t \<in> set (nodes t)"
  by (subst nodes_eq) simp

lemma Max_in_unit:
  assumes "xs \<noteq> []" and "\<forall>x \<in> set xs. in_unit x"
  shows "in_unit (Max (set xs))"
proof -
  from assms(1) have "Max (set xs) \<in> set xs"
    by (intro Max_in) simp_all
  with assms(2) show ?thesis by blast
qed

lemma update_in_unit:
  assumes "in_unit (white_win_probability t)"
    and "\<forall>c \<in> set (subtrees t). in_unit (white_win_probability c)"
  shows "in_unit (white_win_probability (update_white_win_probability t))"
proof (cases "subtrees t = []")
  case True
  with assms(1) show ?thesis by (simp add: prob_update)
next
  case False
  then have ne: "map white_win_probability (subtrees t) \<noteq> []" by simp
  from assms(2) have all: "\<forall>x \<in> set (map white_win_probability (subtrees t)). in_unit x"
    by simp
  from Max_in_unit [OF ne all] float_mean_in_unit [OF ne all] False show ?thesis
    by (simp add: prob_update)
qed

lemma update_all_in_unit:
  assumes "\<forall>n \<in> set (nodes t). in_unit (white_win_probability n)"
  shows "\<forall>n \<in> set (nodes (update_white_win_probability t)). in_unit (white_win_probability n)"
proof -
  from assms have r: "in_unit (white_win_probability t)"
    and cs: "\<forall>c \<in> set (subtrees t). \<forall>n \<in> set (nodes c). in_unit (white_win_probability n)"
    by (simp_all add: all_in_unit_iff [of t])
  from cs have "\<forall>c \<in> set (subtrees t). in_unit (white_win_probability c)"
    using root_in_nodes by blast
  with r have "in_unit (white_win_probability (update_white_win_probability t))"
    by (rule update_in_unit)
  with cs show ?thesis
    by (subst all_in_unit_iff) simp
qed


lemma insert_all_in_unit:
  assumes "in_unit q"
  shows "\<forall>n \<in> set (nodes t). in_unit (white_win_probability n) \<Longrightarrow>
    \<forall>n \<in> set (nodes (insert_move_sequence t ms q)). in_unit (white_win_probability n)"
proof (induction ms arbitrary: t)
  case Nil
  then show ?case by simp
next
  case (Cons m ms)
  from Cons.prems have r: "in_unit (white_win_probability t)"
    and cs: "\<forall>c \<in> set (subtrees t). \<forall>n \<in> set (nodes c). in_unit (white_win_probability n)"
    by (simp_all add: all_in_unit_iff [of t])
  show ?case
  proof (cases "find_subtree_by_move t m")
    case None
    have "\<forall>n \<in> set (nodes (insert_move_sequence (GameTree m (\<not> is_white_move t) q []) ms q)).
        in_unit (white_win_probability n)"
      using assms by (intro Cons.IH) simp
    with r cs have "\<forall>n \<in> set (nodes (GameTree (move t) (is_white_move t)
        (white_win_probability t)
        (subtrees t @ [insert_move_sequence (GameTree m (\<not> is_white_move t) q []) ms q]))).
        in_unit (white_win_probability n)"
      by (subst all_in_unit_iff) auto
    then have "\<forall>n \<in> set (nodes (update_white_win_probability
        (GameTree (move t) (is_white_move t) (white_win_probability t)
        (subtrees t @ [insert_move_sequence (GameTree m (\<not> is_white_move t) q []) ms q])))).
        in_unit (white_win_probability n)"
      by (rule update_all_in_unit)
    then show ?thesis using None
      by (simp add: insert_move_sequence_Cons)
  next
    case (Some c)
    then have "c \<in> set (subtrees t)"
      by (auto simp: find_subtree_by_move_def find_Some_iff)
    with cs have "\<forall>n \<in> set (nodes (insert_move_sequence c ms q)).
        in_unit (white_win_probability n)"
      by (intro Cons.IH) blast
    moreover have "set (update_first (\<lambda>subtree. move subtree = m)
        (\<lambda>move_tree. insert_move_sequence move_tree ms q) (subtrees t))
        \<subseteq> set (subtrees t) \<union> {insert_move_sequence c ms q}"
      using set_update_first [of "\<lambda>subtree. move subtree = m" _ "subtrees t"] Some
      by (simp add: find_subtree_by_move_def)
    ultimately have "\<forall>x \<in> set (update_first (\<lambda>subtree. move subtree = m)
        (\<lambda>move_tree. insert_move_sequence move_tree ms q) (subtrees t)).
        \<forall>n \<in> set (nodes x). in_unit (white_win_probability n)"
      using cs by blast
    with r have "\<forall>n \<in> set (nodes (GameTree (move t) (is_white_move t)
        (white_win_probability t)
        (update_first (\<lambda>subtree. move subtree = m)
        (\<lambda>move_tree. insert_move_sequence move_tree ms q) (subtrees t)))).
        in_unit (white_win_probability n)"
      by (subst all_in_unit_iff) simp
    then have "\<forall>n \<in> set (nodes (update_white_win_probability
        (GameTree (move t) (is_white_move t) (white_win_probability t)
        (update_first (\<lambda>subtree. move subtree = m)
        (\<lambda>move_tree. insert_move_sequence move_tree ms q) (subtrees t))))).
        in_unit (white_win_probability n)"
      by (rule update_all_in_unit)
    then show ?thesis using Some
      by (simp add: insert_move_sequence_Cons)
  qed
qed

lemma add_subtree_all_in_unit:
  assumes "\<forall>n \<in> set (nodes t). in_unit (white_win_probability n)"
    and "\<forall>n \<in> set (nodes s). in_unit (white_win_probability n)"
  shows "\<forall>n \<in> set (nodes (add_subtree t s)). in_unit (white_win_probability n)"
proof -
  from assms(1) have r: "in_unit (white_win_probability t)"
    and cs: "\<forall>c \<in> set (subtrees t). \<forall>n \<in> set (nodes c). in_unit (white_win_probability n)"
    by (simp_all add: all_in_unit_iff [of t])
  with assms(2) have "\<forall>n \<in> set (nodes (GameTree (move t) (is_white_move t)
        (white_win_probability t) (subtrees t @ [s]))). in_unit (white_win_probability n)"
    by (subst all_in_unit_iff) auto
  then show ?thesis
    unfolding add_subtree_def by (rule update_all_in_unit)
qed

lemma modify_at_all_in_unit:
  assumes f: "\<And>n. \<forall>x \<in> set (nodes n). in_unit (white_win_probability x) \<Longrightarrow>
      \<forall>x \<in> set (nodes (f n)). in_unit (white_win_probability x)"
  shows "\<forall>n \<in> set (nodes t). in_unit (white_win_probability n) \<Longrightarrow>
    \<forall>n \<in> set (nodes (modify_at pos f t)). in_unit (white_win_probability n)"
proof (induction pos arbitrary: t)
  case Nil
  then show ?case by (simp add: f)
next
  case (Cons i pos)
  show ?case
  proof (cases "i < length (subtrees t)")
    case False
    with Cons.prems show ?thesis by simp
  next
    case True
    from Cons.prems have r: "in_unit (white_win_probability t)"
      and cs: "\<forall>c \<in> set (subtrees t). \<forall>n \<in> set (nodes c). in_unit (white_win_probability n)"
      by (simp_all add: all_in_unit_iff [of t])
    from True have "subtrees t ! i \<in> set (subtrees t)" by simp
    with cs have "\<forall>n \<in> set (nodes (modify_at pos f (subtrees t ! i))).
        in_unit (white_win_probability n)"
      by (intro Cons.IH) blast
    moreover have "set ((subtrees t)[i := modify_at pos f (subtrees t ! i)])
        \<subseteq> insert (modify_at pos f (subtrees t ! i)) (set (subtrees t))"
      by (rule set_update_subset_insert)
    ultimately have "\<forall>c \<in> set ((subtrees t)[i := modify_at pos f (subtrees t ! i)]).
        \<forall>n \<in> set (nodes c). in_unit (white_win_probability n)"
      using cs by blast
    with r True show ?thesis
      by (simp only: modify_at.simps if_True) (subst all_in_unit_iff, simp)
  qed
qed

text \<open>
  Claim C5. In every tree built and changed only by the public operations (the
  initializer with a win probability in \<open>[0, 1]\<close>, \<open>add_subtree\<close> of a tree built in
  this way, \<open>insert_move_sequence\<close> with a probability in \<open>[0, 1]\<close>, each on the root
  or on a node inside the tree), every node has
  \<open>0 \<le> white_win_probability \<le> 1\<close>.
\<close>

theorem built_probabilities_in_range:
  assumes "built t"
  shows "\<forall>n \<in> set (nodes t). 0 \<le> white_win_probability n \<and> white_win_probability n \<le> 1"
proof -
  from assms have "\<forall>n \<in> set (nodes t). in_unit (white_win_probability n)"
  proof (induction rule: built.induct)
    case (built_init p mv w)
    then show ?case by (simp add: new_GameTree_def in_unit_def)
  next
    case (built_add t s pos)
    from built_add.IH(1) show ?case
      by (rule modify_at_all_in_unit [rotated]) (rule add_subtree_all_in_unit [OF _ built_add.IH(2)])
  next
    case (built_insert t q pos moves)
    then have q: "in_unit q" by (simp add: in_unit_def)
    from built_insert.IH show ?case
      by (rule modify_at_all_in_unit [rotated]) (rule insert_all_in_unit [OF q])
  qed
  then show ?thesis by (simp add: in_unit_def)
qed


text \<open>
  A root, a subtree added with probability 1/2, and a game inserted with outcome 1.
\<close>

theorem built_probabilities_in_range_witness:
  "built (insert_move_sequence
            (add_subtree (new_GameTree ''*'' True 0) (new_GameTree ''b2c3'' False (1/2)))
            [''a2b3'', ''d2c3''] 1)
   \<and> list_all (\<lambda>n. 0 \<le> white_win_probability n \<and> white_win_probability n \<le> 1)
        (nodes (insert_move_sequence
                  (add_subtree (new_GameTree ''*'' True 0) (new_GameTree ''b2c3'' False (1/2)))
                  [''a2b3'', ''d2c3''] 1))"
proof -
  have b0: "built (new_GameTree ''*'' True 0)"
    by (rule built_init) simp_all
  have b1: "built (new_GameTree ''b2c3'' False (1/2))"
    by (rule built_init) simp_all
  have b2: "built (add_subtree (new_GameTree ''*'' True 0) (new_GameTree ''b2c3'' False (1/2)))"
    using built_add [OF b0 b1, of "[]"] by simp
  have b3: "built (insert_move_sequence
            (add_subtree (new_GameTree ''*'' True 0) (new_GameTree ''b2c3'' False (1/2)))
            [''a2b3'', ''d2c3''] 1)"
    using built_insert [OF b2, of 1 "[]" "[''a2b3'', ''d2c3'']"] by simp
  from b3 built_probabilities_in_range [OF b3] show ?thesis
    by (simp add: list_all_iff)
qed

section \<open>Complete game trees\<close>

lemma subtrees_add_subtree [simp]: "subtrees (add_subtree t s) = subtrees t @ [s]"
  by (simp add: add_subtree_def)

lemma subtrees_foldl_add_subtree:
  "subtrees (foldl (\<lambda>tree x. add_subtree tree (f x)) t xs) = subtrees t @ map f xs"
  by (induction xs arbitrary: t) simp_all

lemma subtrees_generate_0 [simp]: "subtrees (generate_complete_game_tree e m g 0) = []"
  by (simp add: new_GameTree_def)

lemma subtrees_generate_Suc:
  "subtrees (generate_complete_game_tree e m g (Suc d)) =
     map (\<lambda>mv. generate_complete_game_tree e mv (copy_and_make_move e g mv) d)
       (get_valid_moves e g)"
  by (simp add: subtrees_foldl_add_subtree new_GameTree_def)

declare generate_complete_game_tree.simps [simp del]

lemma generate_node_at:
  "node_at (generate_complete_game_tree e m g d) pos = Some n \<Longrightarrow>
   length pos \<le> d \<and>
   (\<exists>g'. state_at e g pos = Some g' \<and>
      (subtrees n = [] \<longrightarrow> length pos = d \<or> get_valid_moves e g' = []))"
proof (induction pos arbitrary: m g d)
  case Nil
  then have n: "n = generate_complete_game_tree e m g d" by simp
  show ?case
  proof (cases d)
    case 0
    then show ?thesis by simp
  next
    case (Suc d')
    then show ?thesis
      by (simp add: n subtrees_generate_Suc)
  qed
next
  case (Cons i pos)
  show ?case
  proof (cases d)
    case 0
    with Cons.prems show ?thesis by simp
  next
    case (Suc d')
    let ?vm = "get_valid_moves e g"
    from Cons.prems Suc have i: "i < length ?vm"
      by (simp add: subtrees_generate_Suc
          split: if_splits)
    with Cons.prems Suc have
      "node_at (generate_complete_game_tree e (?vm ! i) (copy_and_make_move e g (?vm ! i)) d')
         pos = Some n"
      by (simp add: subtrees_generate_Suc)
    from Cons.IH [OF this] i Suc show ?thesis by simp
  qed
qed

text \<open>
  Claim C6. For every game state and every \<open>d \<ge> 0\<close>, every node of
  \<open>generate_complete_game_tree(root_move, game_state, d)\<close> lies at most \<open>d\<close> edges
  below the root, and every leaf is at depth exactly \<open>d\<close> or stands for a game state
  with no valid moves. For \<open>d = 0\<close> the tree is a single node without subtrees, with
  win probability 1.0 when White has already won and the default 0.0 otherwise.
\<close>

theorem generate_complete_game_tree_depth:
  "(\<forall>pos n. node_at (generate_complete_game_tree e root_move game_state d) pos = Some n \<longrightarrow>
      length pos \<le> d \<and>
      (\<exists>g'. state_at e game_state pos = Some g' \<and>
         (subtrees n = [] \<longrightarrow> length pos = d \<or> get_valid_moves e g' = [])))
   \<and> generate_complete_game_tree e root_move game_state 0 =
       GameTree root_move (game_is_white_move e game_state)
         (if get_winner e game_state = Some ''White'' then 1 else 0) []"
  using generate_node_at [of e root_move game_state d]
  by (simp add: new_GameTree_def generate_complete_game_tree.simps)


text \<open>
  Depth bound 2 from a state with one move left: the first subtree is a leaf at depth 1,
  and its state has no valid moves.
\<close>

theorem generate_complete_game_tree_depth_witness:
  "node_at (generate_complete_game_tree countdown_game ''*'' 1 2) [0]
     = Some (GameTree ''a2b3'' True 1 [])
   \<and> length [0::nat] \<le> 2
   \<and> state_at countdown_game 1 [0] = Some 0
   \<and> subtrees (GameTree ''a2b3'' True 1 []) = []
   \<and> get_valid_moves countdown_game 0 = []"
proof -
  have two: "(2::nat) = Suc (Suc 0)" by simp
  have n: "node_at (generate_complete_game_tree countdown_game ''*'' 1 2) [0]
     = Some (GameTree ''a2b3'' True 1 [])"
    unfolding two
    by (simp add: generate_complete_game_tree.simps countdown_game_def tree_eval)
  with generate_complete_game_tree_depth [of countdown_game "''*''" 1 2]
  have "length [0::nat] \<le> 2 \<and>
      (\<exists>g'. state_at countdown_game 1 [0] = Some g' \<and>
         (subtrees (GameTree ''a2b3'' True 1 []) = [] \<longrightarrow>
          length [0::nat] = 2 \<or> get_valid_moves countdown_game g' = []))"
    by blast
  with n show ?thesis by (auto simp: countdown_game_def)
qed

section \<open>The greedy scans\<close>

lemma scan_highest_foldl:
  "foldl (\<lambda>(prob, highest_prob) subtree.
              if white_win_probability subtree > prob
              then (white_win_probability subtree, Some subtree)
              else (prob, highest_prob)) (p, b) ts =
   (if \<exists>c \<in> set ts. white_win_probability c > p
    then (Max (white_win_probability ` set ts),
          find (\<lambda>c. white_win_probability c = Max (white_win_probability ` set ts)) ts)
    else (p, b))"
proof (induction ts arbitrary: p b)
  case Nil
  show ?case by simp
next
  case (Cons x xs)
  let ?w = white_win_probability
  show ?case
  proof (cases "\<exists>c \<in> set xs. ?w c > max p (?w x)")
    case True
    then have ne: "set xs \<noteq> {}" by auto
    from True have "Max (?w ` set xs) > max p (?w x)"
      by (subst Max_gr_iff) auto
    then have gp: "Max (?w ` set xs) > p" and gx: "Max (?w ` set xs) > ?w x"
      by simp_all
    from gx ne have M: "Max (insert (?w x) (?w ` set xs)) = Max (?w ` set xs)"
      by (simp add: max_absorb2)
    from True have ex: "\<exists>c \<in> set xs. ?w c > p" "\<exists>c \<in> set xs. ?w c > ?w x"
      by auto
    from gx have nx: "?w x \<noteq> Max (?w ` set xs)" by simp
    show ?thesis
    proof (cases "?w x > p")
      case True
      with ex nx show ?thesis
        by (auto simp: Cons.IH M)
    next
      case False
      with ex nx show ?thesis
        by (auto simp: Cons.IH M)
    qed
  next
    case False
    then have le: "\<forall>c \<in> set xs. ?w c \<le> max p (?w x)" by auto
    show ?thesis
    proof (cases "?w x > p")
      case True
      with le have "\<forall>c \<in> set xs. ?w c \<le> ?w x" by (simp add: max_def)
      then have "Max (insert (?w x) (?w ` set xs)) = ?w x"
        by (intro Max_eqI) auto
      with True le show ?thesis
        by (auto simp: Cons.IH max_def)
    next
      case False
      with le show ?thesis
        by (auto simp: Cons.IH max_def)
    qed
  qed
qed


lemma scan_highest_eq:
  "scan_highest ts =
   (if \<exists>c \<in> set ts. white_win_probability c > 0
    then (Max (white_win_probability ` set ts),
          find (\<lambda>c. white_win_probability c = Max (white_win_probability ` set ts)) ts)
    else (0, None))"
  unfolding scan_highest_def by (rule scan_highest_foldl)

lemma find_Max_Some:
  assumes "ts \<noteq> []"
  shows "\<exists>h. find (\<lambda>c. white_win_probability c = Max (white_win_probability ` set ts)) ts
    = Some h"
proof -
  from assms have "Max (white_win_probability ` set ts) \<in> white_win_probability ` set ts"
    by (intro Max_in) simp_all
  then show ?thesis
    by (cases "find (\<lambda>c. white_win_probability c = Max (white_win_probability ` set ts)) ts")
      (auto simp: find_None_iff)
qed

lemma random_subtree_eq:
  "subtrees t \<noteq> [] \<Longrightarrow>
   random_subtree t r =
     (Inr (move (subtrees t ! (shd r mod length (subtrees t)))),
      Some (subtrees t ! (shd r mod length (subtrees t))), stl r)"
  by (simp add: random_subtree_def random_choice_def get_subtrees_def)

section \<open>The greedy player on White's turn\<close>

text \<open>
  Claim C7. \<open>GreedyTreePlayer.make_move\<close>, when the held tree after the descent by the
  opponent's move is present and has subtrees and it is White's turn: if some subtree
  has a win probability above 0, the move and the new held tree are the first subtree
  whose probability is the maximum, whatever the generator is, and the generator is not
  used; in particular a subtree with 0.9 among subtrees with 0.1 is selected. If no
  subtree has a probability above 0, the subtree is the one \<open>random.choice\<close> draws
  among the subtrees, and the held tree is that subtree, not \<open>None\<close>.
\<close>

theorem greedy_white_choice:
  assumes "descend held previous_move = Some t"
    and "subtrees t \<noteq> []"
    and "game_is_white_move e game"
  shows
    "((\<exists>c \<in> set (subtrees t). white_win_probability c > 0) \<longrightarrow>
        (\<exists>h. find (\<lambda>c. white_win_probability c =
                        Max (white_win_probability ` set (subtrees t))) (subtrees t) = Some h
           \<and> GreedyTreePlayer_make_move e game previous_move held r
               = (Inr (move h), Some h, r)))
     \<and> ((\<forall>c \<in> set (subtrees t). white_win_probability c \<le> 0) \<longrightarrow>
        GreedyTreePlayer_make_move e game previous_move held r
          = (Inr (move (subtrees t ! (shd r mod length (subtrees t)))),
             Some (subtrees t ! (shd r mod length (subtrees t))), stl r))
     \<and> (\<forall>i < length (subtrees t).
          white_win_probability (subtrees t ! i) = 9/10 \<and>
          (\<forall>j < length (subtrees t). j \<noteq> i \<longrightarrow>
             white_win_probability (subtrees t ! j) = 1/10) \<longrightarrow>
          GreedyTreePlayer_make_move e game previous_move held r
            = (Inr (move (subtrees t ! i)), Some (subtrees t ! i), r))"
proof (intro conjI impI allI)
  let ?w = white_win_probability
  let ?M = "Max (?w ` set (subtrees t))"
  obtain h where h: "find (\<lambda>c. ?w c = ?M) (subtrees t) = Some h"
    using find_Max_Some [OF assms(2)] by blast
  have found: "GreedyTreePlayer_make_move e game previous_move held r = (Inr (move h), Some h, r)"
    if "\<exists>c \<in> set (subtrees t). ?w c > 0"
    using assms that h
    by (simp add: GreedyTreePlayer_make_move_def get_subtrees_def scan_highest_eq)
  {
    assume "\<exists>c \<in> set (subtrees t). ?w c > 0"
    with h found
    show "\<exists>h. find (\<lambda>c. ?w c = ?M) (subtrees t) = Some h \<and>
      GreedyTreePlayer_make_move e game previous_move held r = (Inr (move h), Some h, r)"
      by blast
  next
    assume "\<forall>c \<in> set (subtrees t). ?w c \<le> 0"
    then have "\<not> (\<exists>c \<in> set (subtrees t). ?w c > 0)" by (auto simp: not_less)
    with assms show "GreedyTreePlayer_make_move e game previous_move held r
          = (Inr (move (subtrees t ! (shd r mod length (subtrees t)))),
             Some (subtrees t ! (shd r mod length (subtrees t))), stl r)"
      by (simp add: GreedyTreePlayer_make_move_def get_subtrees_def scan_highest_eq
          random_subtree_eq)
  next
    fix i
    assume i: "i < length (subtrees t)"
      and v: "?w (subtrees t ! i) = 9/10 \<and>
          (\<forall>j < length (subtrees t). j \<noteq> i \<longrightarrow> ?w (subtrees t ! j) = 1/10)"
    have le: "\<forall>c \<in> set (subtrees t). ?w c \<le> 9/10"
    proof
      fix c assume "c \<in> set (subtrees t)"
      then obtain j where "j < length (subtrees t)" "c = subtrees t ! j"
        by (auto simp: in_set_conv_nth)
      with v show "?w c \<le> 9/10" by (cases "j = i") auto
    qed
    from i v have mem: "9/10 \<in> ?w ` set (subtrees t)"
      by (metis image_eqI nth_mem)
    from le mem have M: "?M = 9/10"
      by (intro Max_eqI) auto
    from h obtain k where k: "k < length (subtrees t)" "?w (subtrees t ! k) = ?M"
      "h = subtrees t ! k"
      by (auto simp: find_Some_iff)
    with v M have "k = i" by (cases "k = i") auto
    with k have "h = subtrees t ! i" by simp
    moreover from i v have "\<exists>c \<in> set (subtrees t). ?w c > 0"
      by (intro bexI [of _ "subtrees t ! i"]) simp_all
    ultimately show "GreedyTreePlayer_make_move e game previous_move held r
            = (Inr (move (subtrees t ! i)), Some (subtrees t ! i), r)"
      using found by simp
  }
qed


text \<open>
  White to move at the root. With subtree values 0.1, 0.9, 0.1 the second subtree is
  selected; with all values 0 and a generator whose next output is 1, the subtree at
  index 1 is drawn and becomes the held tree.
\<close>

theorem greedy_white_choice_witness:
  "descend
     (Some (GameTree ''*'' True 0
        [GameTree ''a2b3'' False (1/10) [], GameTree ''b2c3'' False (9/10) [],
         GameTree ''c2d3'' False (1/10) []])) None
     = Some (GameTree ''*'' True 0
        [GameTree ''a2b3'' False (1/10) [], GameTree ''b2c3'' False (9/10) [],
         GameTree ''c2d3'' False (1/10) []])
   \<and> game_is_white_move countdown_game 2
   \<and> GreedyTreePlayer_make_move countdown_game 2 None
       (Some (GameTree ''*'' True 0
          [GameTree ''a2b3'' False (1/10) [], GameTree ''b2c3'' False (9/10) [],
           GameTree ''c2d3'' False (1/10) []])) (sconst 0)
     = (Inr ''b2c3'', Some (GameTree ''b2c3'' False (9/10) []), sconst 0)
   \<and> GreedyTreePlayer_make_move countdown_game 2 None
       (Some (GameTree ''*'' True 0
          [GameTree ''a2b3'' False 0 [], GameTree ''b2c3'' False 0 []])) (SCons 1 (sconst 0))
     = (Inr ''b2c3'', Some (GameTree ''b2c3'' False 0 []), sconst 0)"
proof -
  let ?t = "GameTree ''*'' True 0
        [GameTree ''a2b3'' False (1/10) [], GameTree ''b2c3'' False (9/10) [],
         GameTree ''c2d3'' False (1/10) []]"
  let ?z = "GameTree ''*'' True 0 [GameTree ''a2b3'' False 0 [], GameTree ''b2c3'' False 0 []]"
  have d: "descend (Some ?t) None = Some ?t" and dz: "descend (Some ?z) None = Some ?z"
    by (simp_all add: descend_def)
  have ne: "subtrees ?t \<noteq> []" and nez: "subtrees ?z \<noteq> []"
    by simp_all
  have w: "game_is_white_move countdown_game 2"
    by (simp add: countdown_game_def)
  have less: "j < 3 \<longleftrightarrow> j = 0 \<or> j = 1 \<or> j = 2" for j :: nat
    by auto
  have "GreedyTreePlayer_make_move countdown_game 2 None (Some ?t) (sconst 0)
      = (Inr (move (subtrees ?t ! 1)), Some (subtrees ?t ! 1), sconst 0)"
    using greedy_white_choice [OF d ne w, of "sconst 0"]
    by (elim conjE allE [of _ 1]) (simp add: less)
  moreover have "GreedyTreePlayer_make_move countdown_game 2 None (Some ?z) (SCons 1 (sconst 0))
      = (Inr (move (subtrees ?z ! 1)), Some (subtrees ?z ! 1), sconst 0)"
    using greedy_white_choice [OF dz nez w, of "SCons 1 (sconst 0)"]
    by simp
  ultimately show ?thesis using d w by simp
qed

section \<open>The exploring player with exploration probability 0\<close>

lemma scan_lowest_foldl:
  "foldl (\<lambda>(prob1, lowest_prob) subtree.
              if white_win_probability subtree < prob1
              then (white_win_probability subtree, Some subtree)
              else (prob1, lowest_prob)) (p, b) ts =
   (if \<exists>c \<in> set ts. white_win_probability c < p
    then (Min (white_win_probability ` set ts),
          find (\<lambda>c. white_win_probability c = Min (white_win_probability ` set ts)) ts)
    else (p, b))"
proof (induction ts arbitrary: p b)
  case Nil
  show ?case by simp
next
  case (Cons x xs)
  let ?w = white_win_probability
  show ?case
  proof (cases "\<exists>c \<in> set xs. ?w c < min p (?w x)")
    case True
    then have ne: "set xs \<noteq> {}" by auto
    from True have "Min (?w ` set xs) < min p (?w x)"
      by (subst Min_less_iff) auto
    then have gp: "Min (?w ` set xs) < p" and gx: "Min (?w ` set xs) < ?w x"
      by simp_all
    from gx ne have M: "Min (insert (?w x) (?w ` set xs)) = Min (?w ` set xs)"
      by (simp add: min_absorb2)
    from True have ex: "\<exists>c \<in> set xs. ?w c < p" "\<exists>c \<in> set xs. ?w c < ?w x"
      by auto
    from gx have nx: "?w x \<noteq> Min (?w ` set xs)" by simp
    show ?thesis
    proof (cases "?w x < p")
      case True
      with ex nx show ?thesis
        by (auto simp: Cons.IH M)
    next
      case False
      with ex nx show ?thesis
        by (auto simp: Cons.IH M)
    qed
  next
    case False
    then have le: "\<forall>c \<in> set xs. min p (?w x) \<le> ?w c" by auto
    show ?thesis
    proof (cases "?w x < p")
      case True
      with le have "\<forall>c \<in> set xs. ?w x \<le> ?w c" by (simp add: min_def)
      then have "Min (insert (?w x) (?w ` set xs)) = ?w x"
        by (intro Min_eqI) auto
      with True le show ?thesis
        by (auto simp: Cons.IH min_def)
    next
      case False
      with le show ?thesis
        by (auto simp: Cons.IH min_def)
    qed
  qed
qed

lemma scan_lowest_eq:
  "scan_lowest ts =
   (if \<exists>c \<in> set ts. white_win_probability c < 1
    then (Min (white_win_probability ` set ts),
          find (\<lambda>c. white_win_probability c = Min (white_win_probability ` set ts)) ts)
    else (1, None))"
  unfolding scan_lowest_def by (rule scan_lowest_foldl)

lemma find_Min_Some:
  assumes "ts \<noteq> []"
  shows "\<exists>h. find (\<lambda>c. white_win_probability c = Min (white_win_probability ` set ts)) ts
    = Some h"
proof -
  from assms have "Min (white_win_probability ` set ts) \<in> white_win_probability ` set ts"
    by (intro Min_in) simp_all
  then show ?thesis
    by (cases "find (\<lambda>c. white_win_probability c = Min (white_win_probability ` set ts)) ts")
      (auto simp: find_None_iff)
qed

lemma random_uniform_unit_nonneg: "0 \<le> fst (random_uniform 0 1 r)"
  by (simp add: random_uniform_def random_random_def)

lemma snd_random_uniform [simp]: "snd (random_uniform a b r) = stl r"
  by (simp add: random_uniform_def random_random_def)

text \<open>With exploration probability 0 the explore step is never taken.\<close>

lemma exploring_zero_on_tree:
  assumes "descend held previous_move = Some t" and "subtrees t \<noteq> []"
  shows "ExploringPlayer_make_move 0 e game previous_move held r
    = helper_function2 e game t (stl r)"
proof -
  obtain number r' where u: "random_uniform 0 1 r = (number, r')"
    by (cases "random_uniform 0 1 r")
  with random_uniform_unit_nonneg [of r] snd_random_uniform [of 0 1 r]
  have "\<not> number < 0" and "r' = stl r" by simp_all
  with assms u show ?thesis
    by (simp add: ExploringPlayer_make_move_def get_subtrees_def)
qed

lemma greedy_on_tree:
  assumes "descend held previous_move = Some t" and "subtrees t \<noteq> []"
  shows "GreedyTreePlayer_make_move e game previous_move held r = helper_function2 e game t r"
  using assms
  by (simp add: GreedyTreePlayer_make_move_def helper_function2_def get_subtrees_def)

lemma off_tree_same:
  assumes "descend held previous_move = None \<or>
    (\<exists>t. descend held previous_move = Some t \<and> subtrees t = [])"
  shows "ExploringPlayer_make_move p e game previous_move held r
      = random_valid_move e game (descend held previous_move) r"
    and "GreedyTreePlayer_make_move e game previous_move held r
      = random_valid_move e game (descend held previous_move) r"
    and "RandomTreePlayer_make_move e game previous_move held r
      = random_valid_move e game (descend held previous_move) r"
  using assms
  by (auto simp: ExploringPlayer_make_move_def GreedyTreePlayer_make_move_def
      RandomTreePlayer_make_move_def get_subtrees_def)

text \<open>When a scan selects a subtree, the greedy step does not read the generator.\<close>

lemma helper_function2_deterministic:
  assumes "subtrees t \<noteq> []"
    and "if game_is_white_move e game
         then \<exists>c \<in> set (subtrees t). white_win_probability c > 0
         else \<exists>c \<in> set (subtrees t). white_win_probability c < 1"
  shows "\<exists>h \<in> set (subtrees t). \<forall>r. helper_function2 e game t r = (Inr (move h), Some h, r)"
proof (cases "game_is_white_move e game")
  case True
  from find_Max_Some [OF assms(1)] obtain h where
    h: "find (\<lambda>c. white_win_probability c = Max (white_win_probability ` set (subtrees t)))
          (subtrees t) = Some h"
    by blast
  then have "h \<in> set (subtrees t)"
    by (auto simp: find_Some_iff)
  moreover from True assms(2) h
  have "\<forall>r. helper_function2 e game t r = (Inr (move h), Some h, r)"
    by (simp add: helper_function2_def get_subtrees_def scan_highest_eq)
  ultimately show ?thesis by blast
next
  case False
  from find_Min_Some [OF assms(1)] obtain h where
    h: "find (\<lambda>c. white_win_probability c = Min (white_win_probability ` set (subtrees t)))
          (subtrees t) = Some h"
    by blast
  then have "h \<in> set (subtrees t)"
    by (auto simp: find_Some_iff)
  moreover from False assms(2) h
  have "\<forall>r. helper_function2 e game t r = (Inr (move h), Some h, r)"
    by (simp add: helper_function2_def get_subtrees_def scan_lowest_eq)
  ultimately show ?thesis by blast
qed


text \<open>
  Claim C8, as stated, fails. Both subtrees of the held tree have win probability 0 and
  White is to move, so the greedy scan selects nothing and the move is drawn with
  \<open>random.choice\<close>. On the same generator, with outputs 0, 1, 0, 0, ...,
  \<open>GreedyTreePlayer\<close> draws with the first output and plays \<open>a2b3\<close>;
  \<open>ExploringPlayer\<close> with probability 0.0 has used the first output for
  \<open>random.uniform\<close>, draws with the second and plays \<open>b2c3\<close>.
\<close>

theorem exploring_zero_counterexample:
  "outcome (GreedyTreePlayer_make_move countdown_game 2 None
      (Some (GameTree ''*'' True 0
         [GameTree ''a2b3'' False 0 [], GameTree ''b2c3'' False 0 []]))
      (SCons 0 (SCons 1 (sconst 0))))
     = (Inr ''a2b3'', Some (GameTree ''a2b3'' False 0 []))
   \<and> outcome (ExploringPlayer_make_move 0 countdown_game 2 None
      (Some (GameTree ''*'' True 0
         [GameTree ''a2b3'' False 0 [], GameTree ''b2c3'' False 0 []]))
      (SCons 0 (SCons 1 (sconst 0))))
     = (Inr ''b2c3'', Some (GameTree ''b2c3'' False 0 []))
   \<and> outcome (ExploringPlayer_make_move 0 countdown_game 2 None
      (Some (GameTree ''*'' True 0
         [GameTree ''a2b3'' False 0 [], GameTree ''b2c3'' False 0 []]))
      (SCons 0 (SCons 1 (sconst 0))))
     \<noteq> outcome (GreedyTreePlayer_make_move countdown_game 2 None
      (Some (GameTree ''*'' True 0
         [GameTree ''a2b3'' False 0 [], GameTree ''b2c3'' False 0 []]))
      (SCons 0 (SCons 1 (sconst 0))))"
  by (simp add: outcome_def GreedyTreePlayer_make_move_def ExploringPlayer_make_move_def
      helper_function2_def descend_def get_subtrees_def scan_highest_def random_subtree_def
      random_choice_def random_uniform_def random_random_def countdown_game_def)

text \<open>
  Claim C8, amended. \<open>ExploringPlayer\<close> with exploration probability 0.0 never takes
  the explore step, and its call of \<open>make_move\<close> is the call of \<open>GreedyTreePlayer\<close>
  from the same held tree on the generator that its test left: the same generator when
  the held tree after the descent is \<open>None\<close> or has no subtrees (no
  \<open>random.uniform\<close> call is made), the generator after one output otherwise. So the
  move and the held tree are exactly those of \<open>GreedyTreePlayer\<close> on the identical
  generator when the players are off the tree and when the greedy scan selects a
  subtree (White to move and some subtree above 0, Black to move and some subtree
  below 1); when the scan selects nothing, they are those of \<open>GreedyTreePlayer\<close> on
  the generator without its first output.
\<close>

theorem exploring_zero_matches_greedy:
  "ExploringPlayer_make_move 0 e game previous_move held r =
     GreedyTreePlayer_make_move e game previous_move held
       (case descend held previous_move of
          None \<Rightarrow> r
        | Some t \<Rightarrow> if subtrees t = [] then r else stl r)
   \<and> ((case descend held previous_move of
          None \<Rightarrow> True
        | Some t \<Rightarrow>
            subtrees t = [] \<or>
            (if game_is_white_move e game
             then \<exists>c \<in> set (subtrees t). white_win_probability c > 0
             else \<exists>c \<in> set (subtrees t). white_win_probability c < 1))
       \<longrightarrow> outcome (ExploringPlayer_make_move 0 e game previous_move held r)
           = outcome (GreedyTreePlayer_make_move e game previous_move held r))"
proof (cases "descend held previous_move")
  case None
  then show ?thesis
    by (simp add: off_tree_same)
next
  case (Some t)
  show ?thesis
  proof (cases "subtrees t = []")
    case True
    with Some show ?thesis
      by (simp add: off_tree_same)
  next
    case False
    have tail: "ExploringPlayer_make_move 0 e game previous_move held r
        = GreedyTreePlayer_make_move e game previous_move held (stl r)"
      by (simp add: exploring_zero_on_tree [OF Some False] greedy_on_tree [OF Some False])
    have "outcome (ExploringPlayer_make_move 0 e game previous_move held r)
        = outcome (GreedyTreePlayer_make_move e game previous_move held r)"
      if "if game_is_white_move e game
          then \<exists>c \<in> set (subtrees t). white_win_probability c > 0
          else \<exists>c \<in> set (subtrees t). white_win_probability c < 1"
    proof -
      from helper_function2_deterministic [OF False that] obtain h where
        "\<forall>r. helper_function2 e game t r = (Inr (move h), Some h, r)"
        by blast
      then show ?thesis
        by (simp add: exploring_zero_on_tree [OF Some False] greedy_on_tree [OF Some False]
            outcome_def)
    qed
    with tail Some False show ?thesis by simp
  qed
qed

text \<open>
  White to move, subtree values 0.1 and 0.9: both players select the second subtree.
\<close>

theorem exploring_zero_matches_greedy_witness:
  "(\<exists>c \<in> set (subtrees (GameTree ''*'' True 0
        [GameTree ''a2b3'' False (1/10) [], GameTree ''b2c3'' False (9/10) []])).
      white_win_probability c > 0)
   \<and> outcome (ExploringPlayer_make_move 0 countdown_game 2 None
        (Some (GameTree ''*'' True 0
           [GameTree ''a2b3'' False (1/10) [], GameTree ''b2c3'' False (9/10) []]))
        (SCons 0 (SCons 1 (sconst 0))))
     = outcome (GreedyTreePlayer_make_move countdown_game 2 None
        (Some (GameTree ''*'' True 0
           [GameTree ''a2b3'' False (1/10) [], GameTree ''b2c3'' False (9/10) []]))
        (SCons 0 (SCons 1 (sconst 0))))
   \<and> ExploringPlayer_make_move 0 countdown_game 2 None
        (Some (GameTree ''*'' True 0
           [GameTree ''a2b3'' False 0 [], GameTree ''b2c3'' False 0 []]))
        (SCons 0 (SCons 1 (sconst 0)))
     = GreedyTreePlayer_make_move countdown_game 2 None
        (Some (GameTree ''*'' True 0
           [GameTree ''a2b3'' False 0 [], GameTree ''b2c3'' False 0 []]))
        (SCons 1 (sconst 0))"
proof -
  let ?t = "GameTree ''*'' True 0
        [GameTree ''a2b3'' False (1/10) [], GameTree ''b2c3'' False (9/10) []]"
  let ?z = "GameTree ''*'' True 0 [GameTree ''a2b3'' False 0 [], GameTree ''b2c3'' False 0 []]"
  let ?r = "SCons 0 (SCons 1 (sconst 0))"
  have ex: "\<exists>c \<in> set (subtrees ?t). white_win_probability c > 0"
    by simp
  have w: "game_is_white_move countdown_game 2"
    by (simp add: countdown_game_def)
  from ex w exploring_zero_matches_greedy [of countdown_game 2 None "Some ?t" ?r, THEN conjunct2]
  have a: "outcome (ExploringPlayer_make_move 0 countdown_game 2 None (Some ?t) ?r)
      = outcome (GreedyTreePlayer_make_move countdown_game 2 None (Some ?t) ?r)"
    by (simp add: descend_def)
  from exploring_zero_matches_greedy [of countdown_game 2 None "Some ?z" ?r, THEN conjunct1]
  have b: "ExploringPlayer_make_move 0 countdown_game 2 None (Some ?z) ?r
      = GreedyTreePlayer_make_move countdown_game 2 None (Some ?z) (SCons 1 (sconst 0))"
    by (simp add: descend_def)
  from ex a b show ?thesis by simp
qed

section \<open>Leaving the tree\<close>

lemma random_valid_move_eq:
  "get_valid_moves e game \<noteq> [] \<Longrightarrow>
   random_valid_move e game held r =
     (Inr (get_valid_moves e game ! (shd r mod length (get_valid_moves e game))), None, stl r)"
  by (simp add: random_valid_move_def random_choice_def)

lemma random_valid_move_None: "fst (snd (random_valid_move e game None r)) = None"
  by (simp add: random_valid_move_def random_choice_def)

lemma descend_None [simp]: "descend None previous_move = None"
  by (simp add: descend_def split: option.split)

lemma make_move_off_tree:
  assumes "descend held previous_move = None \<or>
    (\<exists>t. descend held previous_move = Some t \<and> subtrees t = [])"
  shows "make_move pl e game previous_move held r
    = random_valid_move e game (descend held previous_move) r"
  using off_tree_same [OF assms] by (cases pl) simp_all

lemma make_move_None: "fst (snd (make_move pl e game previous_move None r)) = None"
  by (simp add: make_move_off_tree random_valid_move_None)

lemma make_moves_None: "fst (make_moves pl e calls None r) = None"
proof (induction calls arbitrary: r)
  case Nil
  show ?case by simp
next
  case (Cons c calls)
  obtain game previous_move where c: "c = (game, previous_move)" by (cases c)
  obtain res held' r' where m: "make_move pl e game previous_move None r = (res, held', r')"
    by (cases "make_move pl e game previous_move None r")
  with make_move_None [of pl e game previous_move r] have "held' = None" by simp
  with m c Cons.IH [of r'] show ?case
    by (cases res) simp_all
qed

text \<open>
  Claim C9. For each of the three players, when the held tree after the descent by the
  opponent's move is \<open>None\<close> or has no subtrees (and the game has a valid move, as
  \<open>make_move\<close> requires), \<open>make_move\<close> returns the move that \<open>random.choice\<close>
  draws from \<open>game.get_valid_moves()\<close> and sets the held tree to \<open>None\<close>; from then
  on the held tree is \<open>None\<close> after every later call of \<open>make_move\<close> in the game.
\<close>

theorem off_tree_random_move:
  assumes "descend held previous_move = None \<or>
      (\<exists>t. descend held previous_move = Some t \<and> subtrees t = [])"
    and "get_valid_moves e game \<noteq> []"
  shows "make_move pl e game previous_move held r
       = (Inr (get_valid_moves e game ! (shd r mod length (get_valid_moves e game))),
          None, stl r)
     \<and> get_valid_moves e game ! (shd r mod length (get_valid_moves e game))
       \<in> set (get_valid_moves e game)
     \<and> (\<forall>calls. fst (make_moves pl e ((game, previous_move) # calls) held r) = None)"
proof (intro conjI allI)
  show first: "make_move pl e game previous_move held r
       = (Inr (get_valid_moves e game ! (shd r mod length (get_valid_moves e game))),
          None, stl r)"
    by (simp add: make_move_off_tree [OF assms(1)] random_valid_move_eq [OF assms(2)])
  from assms(2) show "get_valid_moves e game ! (shd r mod length (get_valid_moves e game))
       \<in> set (get_valid_moves e game)"
    by (intro nth_mem) simp
  show "fst (make_moves pl e ((game, previous_move) # calls) held r) = None" for calls
    by (simp add: first make_moves_None)
qed

text \<open>
  The opponent's move \<open>c2d3\<close> is not in the tree. Each player returns the valid move
  drawn with the generator's output 1 and holds \<open>None\<close>, also after a later call.
\<close>

theorem off_tree_random_move_witness:
  "descend (Some (GameTree ''*'' True 0 [GameTree ''a2b3'' False 1 []])) (Some ''c2d3'') = None
   \<and> get_valid_moves countdown_game 2 \<noteq> []
   \<and> make_move RandomTreePlayer countdown_game 2 (Some ''c2d3'')
        (Some (GameTree ''*'' True 0 [GameTree ''a2b3'' False 1 []])) (SCons 1 (sconst 0))
      = (Inr ''b2c3'', None, sconst 0)
   \<and> make_move GreedyTreePlayer countdown_game 2 (Some ''c2d3'')
        (Some (GameTree ''*'' True 0 [GameTree ''a2b3'' False 1 []])) (SCons 1 (sconst 0))
      = (Inr ''b2c3'', None, sconst 0)
   \<and> make_move (ExploringPlayer (1/2)) countdown_game 2 (Some ''c2d3'')
        (Some (GameTree ''*'' True 0 [GameTree ''a2b3'' False 1 []])) (SCons 1 (sconst 0))
      = (Inr ''b2c3'', None, sconst 0)
   \<and> fst (make_moves GreedyTreePlayer countdown_game [(2, Some ''c2d3''), (1, Some ''a2b3'')]
        (Some (GameTree ''*'' True 0 [GameTree ''a2b3'' False 1 []])) (SCons 1 (sconst 0)))
      = None"
proof -
  let ?t = "GameTree ''*'' True 0 [GameTree ''a2b3'' False 1 []]"
  have d: "descend (Some ?t) (Some ''c2d3'') = None"
    by (simp add: descend_def find_subtree_by_move_def)
  then have d': "descend (Some ?t) (Some ''c2d3'') = None \<or>
      (\<exists>t. descend (Some ?t) (Some ''c2d3'') = Some t \<and> subtrees t = [])"
    by simp
  have v: "get_valid_moves countdown_game 2 \<noteq> []"
    by (simp add: countdown_game_def)
  have vm: "get_valid_moves countdown_game 2 = [''a2b3'', ''b2c3'']"
    by (simp add: countdown_game_def)
  note th = off_tree_random_move [OF d' v, of _ "SCons 1 (sconst 0)"]
  have a: "make_move RandomTreePlayer countdown_game 2 (Some ''c2d3'') (Some ?t)
      (SCons 1 (sconst 0)) = (Inr ''b2c3'', None, sconst 0)"
    using th [of RandomTreePlayer, THEN conjunct1] by (simp add: vm)
  have b: "make_move GreedyTreePlayer countdown_game 2 (Some ''c2d3'') (Some ?t)
      (SCons 1 (sconst 0)) = (Inr ''b2c3'', None, sconst 0)"
    using th [of GreedyTreePlayer, THEN conjunct1] by (simp add: vm)
  have c: "make_move (ExploringPlayer (1/2)) countdown_game 2 (Some ''c2d3'') (Some ?t)
      (SCons 1 (sconst 0)) = (Inr ''b2c3'', None, sconst 0)"
    using th [of "ExploringPlayer (1/2)", THEN conjunct1] by (simp add: vm)
  have e: "fst (make_moves GreedyTreePlayer countdown_game
      [(2, Some ''c2d3''), (1, Some ''a2b3'')] (Some ?t) (SCons 1 (sconst 0))) = None"
    using th [of GreedyTreePlayer] by blast
  show ?thesis
    by (intro conjI d v a b c e)
qed

section \<open>Moves taken from the tree\<close>

lemma scan_highest_in_set: "snd (scan_highest ts) = Some h \<Longrightarrow> h \<in> set ts"
  by (auto simp: scan_highest_eq find_Some_iff split: if_splits)

lemma scan_lowest_in_set: "snd (scan_lowest ts) = Some h \<Longrightarrow> h \<in> set ts"
  by (auto simp: scan_lowest_eq find_Some_iff split: if_splits)

lemma random_subtree_in_set:
  "subtrees t \<noteq> [] \<Longrightarrow>
   \<exists>c \<in> set (subtrees t). random_subtree t r = (Inr (move c), Some c, stl r)"
  by (simp add: random_subtree_eq)

text \<open>
  Claim C10. For \<open>RandomTreePlayer\<close> and \<open>GreedyTreePlayer\<close>, when the held tree
  after the descent by the opponent's move is present and has subtrees, the move
  returned is the move of one of these subtrees and the held tree becomes exactly that
  subtree. The move is not checked against \<open>game.get_valid_moves()\<close>: the result is
  the same whatever \<open>get_valid_moves\<close> returns.
\<close>

theorem on_tree_move_from_subtrees:
  assumes "descend held previous_move = Some t"
    and "subtrees t \<noteq> []"
  shows "(\<exists>c \<in> set (subtrees t).
            RandomTreePlayer_make_move e game previous_move held r
              = (Inr (move c), Some c, stl r))
     \<and> (\<exists>c \<in> set (subtrees t). \<exists>r'.
            GreedyTreePlayer_make_move e game previous_move held r
              = (Inr (move c), Some c, r'))
     \<and> RandomTreePlayer_make_move (e\<lparr>get_valid_moves := vm\<rparr>) game previous_move held r
         = RandomTreePlayer_make_move e game previous_move held r
     \<and> GreedyTreePlayer_make_move (e\<lparr>get_valid_moves := vm\<rparr>) game previous_move held r
         = GreedyTreePlayer_make_move e game previous_move held r"
proof (intro conjI)
  from assms show "\<exists>c \<in> set (subtrees t).
      RandomTreePlayer_make_move e game previous_move held r = (Inr (move c), Some c, stl r)"
    by (simp add: RandomTreePlayer_make_move_def get_subtrees_def random_subtree_in_set)
  show "\<exists>c \<in> set (subtrees t). \<exists>r'.
      GreedyTreePlayer_make_move e game previous_move held r = (Inr (move c), Some c, r')"
  proof (cases "game_is_white_move e game")
    case True
    show ?thesis
    proof (cases "snd (scan_highest (subtrees t))")
      case None
      with assms True random_subtree_in_set [OF assms(2), of r] show ?thesis
        by (auto simp: GreedyTreePlayer_make_move_def get_subtrees_def)
    next
      case (Some h)
      with assms True scan_highest_in_set [OF Some] show ?thesis
        by (auto simp: GreedyTreePlayer_make_move_def get_subtrees_def)
    qed
  next
    case False
    show ?thesis
    proof (cases "snd (scan_lowest (subtrees t))")
      case None
      with assms False random_subtree_in_set [OF assms(2), of r] show ?thesis
        by (auto simp: GreedyTreePlayer_make_move_def get_subtrees_def)
    next
      case (Some h)
      with assms False scan_lowest_in_set [OF Some] show ?thesis
        by (auto simp: GreedyTreePlayer_make_move_def get_subtrees_def)
    qed
  qed
  from assms show "RandomTreePlayer_make_move (e\<lparr>get_valid_moves := vm\<rparr>) game
      previous_move held r = RandomTreePlayer_make_move e game previous_move held r"
    by (simp add: RandomTreePlayer_make_move_def get_subtrees_def)
  from assms show "GreedyTreePlayer_make_move (e\<lparr>get_valid_moves := vm\<rparr>) game
      previous_move held r = GreedyTreePlayer_make_move e game previous_move held r"
    by (simp add: GreedyTreePlayer_make_move_def get_subtrees_def)
qed

text \<open>
  The held tree has the single subtree \<open>d4d3\<close>, which is not a valid move of the
  game; both players return it.
\<close>

theorem on_tree_move_from_subtrees_witness:
  "descend (Some (GameTree ''*'' True 0 [GameTree ''d4d3'' False 1 []])) None
     = Some (GameTree ''*'' True 0 [GameTree ''d4d3'' False 1 []])
   \<and> subtrees (GameTree ''*'' True 0 [GameTree ''d4d3'' False 1 []]) \<noteq> []
   \<and> ''d4d3'' \<notin> set (get_valid_moves countdown_game 2)
   \<and> RandomTreePlayer_make_move countdown_game 2 None
        (Some (GameTree ''*'' True 0 [GameTree ''d4d3'' False 1 []])) (sconst 0)
      = (Inr ''d4d3'', Some (GameTree ''d4d3'' False 1 []), sconst 0)
   \<and> (\<exists>r'. GreedyTreePlayer_make_move countdown_game 2 None
        (Some (GameTree ''*'' True 0 [GameTree ''d4d3'' False 1 []])) (sconst 0)
      = (Inr ''d4d3'', Some (GameTree ''d4d3'' False 1 []), r'))"
proof -
  let ?t = "GameTree ''*'' True 0 [GameTree ''d4d3'' False 1 []]"
  have d: "descend (Some ?t) None = Some ?t"
    by (simp add: descend_def)
  have ne: "subtrees ?t \<noteq> []"
    by simp
  have nv: "''d4d3'' \<notin> set (get_valid_moves countdown_game 2)"
    by (simp add: countdown_game_def)
  note th = on_tree_move_from_subtrees [OF d ne, of countdown_game 2 "sconst 0"]
  have a: "RandomTreePlayer_make_move countdown_game 2 None (Some ?t) (sconst 0)
      = (Inr ''d4d3'', Some (GameTree ''d4d3'' False 1 []), sconst 0)"
    using th [THEN conjunct1] by simp
  have b: "\<exists>r'. GreedyTreePlayer_make_move countdown_game 2 None (Some ?t) (sconst 0)
      = (Inr ''d4d3'', Some (GameTree ''d4d3'' False 1 []), r')"
    using th [THEN conjunct2, THEN conjunct1] by simp
  show ?thesis
    by (intro conjI d ne nv a b)
qed

end
